theory Spec2Isabelle
  imports Complex_Main "HOL-Library.Word"
begin

section \<open>Conventions of the embedding\<close>

text \<open>
  The theory embeds \<^verbatim>\<open>sfizz/Wavetables.h\<close> and \<^verbatim>\<open>sfizz/Wavetables.cpp\<close>.

  \<^item> \<^verbatim>\<open>float\<close>, \<^verbatim>\<open>double\<close> and \<^verbatim>\<open>kiss_fft_scalar\<close> values are real numbers and
    \<^verbatim>\<open>std::complex\<close> values are complex numbers, and their arithmetic is exact, with one
    exception: the test \<^verbatim>\<open>index * (1.0 / size) > cutoff\<close> that ends the loop of
    \<^verbatim>\<open>HarmonicProfile::generate\<close>. There the conversions, the quotient and the product are
    rounded to binary64, and the cutoff is a \<open>double\<close> that may also be an infinity or NaN.
    Elsewhere rounding, infinities and NaN are outside the model, and so is a division by
    zero (HOL gives it the value 0): statements that divide by a size assume the size
    positive.
  \<^item> \<^verbatim>\<open>unsigned\<close> values are 32-bit words, so the storage size and the offset of a row
    wrap around as in the source; \<^verbatim>\<open>size_t\<close> counts and loop indices are natural numbers.
  \<^item> A pointer into \<^verbatim>\<open>_multiData\<close> is its integer offset from \<^verbatim>\<open>_multiData.data()\<close>.
    Reading or writing outside the vector or outside a static array, which is undefined
    behaviour in the source, is the error \<open>OutOfBounds\<close>; the
    \<^verbatim>\<open>throw std::bad_alloc()\<close> of the source is the error \<open>BadAlloc\<close>.
  \<^item> The KISS FFT library is not part of the repository: it is a parameter of every
    function that calls it.
\<close>

datatype error = BadAlloc | OutOfBounds

text \<open>\<^verbatim>\<open>std::max(lo, std::min(hi, x))\<close>\<close>

definition clamp :: "'a::linorder \<Rightarrow> 'a \<Rightarrow> 'a \<Rightarrow> 'a" where
  "clamp x lo hi = max lo (min hi x)"

text \<open>\<^verbatim>\<open>static_cast<int>\<close> of a floating-point value truncates towards zero.\<close>

definition static_cast_int :: "real \<Rightarrow> int" where
  "static_cast_int x = (if 0 \<le> x then \<lfloor>x\<rfloor> else \<lceil>x\<rceil>)"

text \<open>\<^verbatim>\<open>a[i]\<close> on a \<^verbatim>\<open>std::array\<close>, with the index range made explicit.\<close>

definition array_at :: "'a list \<Rightarrow> int \<Rightarrow> error + 'a" where
  "array_at a i = (if 0 \<le> i \<and> i < int (length a) then Inr (a ! nat i) else Inl OutOfBounds)"

section \<open>MipmapRange\<close>

record MipmapRange =
  minFrequency :: real
  maxFrequency :: real

definition N :: nat where
  "N = 24"

definition F1 :: real where
  "F1 = 20"

definition FN :: real where
  "FN = 12000"

definition K :: real where
  "K = 1 / F1"

definition LogB :: real where
  "LogB = ln (FN / F1) / real (N - 1)"

definition getExactIndexForFrequency :: "real \<Rightarrow> real" where
  "getExactIndexForFrequency f =
     (let t = (if f < F1 then 0 else ln (K * f) / LogB)
      in clamp t 0 (real (N - 1)))"

text \<open>The size of the \<^verbatim>\<open>FrequencyToIndex\<close> array.\<close>

definition FrequencyToIndex_size :: nat where
  "FrequencyToIndex_size = 1024"

definition FrequencyToIndex :: "real list" where
  "FrequencyToIndex =
     map (\<lambda>i. let r = real i * (1 / real (FrequencyToIndex_size - 1));
                  f = F1 + r * (FN - F1)
              in getExactIndexForFrequency f)
         [0 ..< FrequencyToIndex_size - 1]
     @ [real (N - 1)]"

definition getIndexForFrequency :: "real \<Rightarrow> error + real" where
  "getIndexForFrequency f =
     (let tableSize = FrequencyToIndex_size;
          pos = (f - F1) * (real (tableSize - 1) / (FN - F1));
          pos = clamp pos 0 (real (tableSize - 1));
          index1 = static_cast_int pos;
          index2 = min (index1 + 1) (int tableSize - 1);
          frac = pos - real_of_int index1
      in case array_at FrequencyToIndex index1 of
           Inl e \<Rightarrow> Inl e
         | Inr a \<Rightarrow>
             (case array_at FrequencyToIndex index2 of
                Inl e \<Rightarrow> Inl e
              | Inr b \<Rightarrow> Inr ((1 - frac) * a + frac * b)))"

definition IndexToStartFrequency :: "real list" where
  "IndexToStartFrequency =
     map (\<lambda>t. exp (real t * LogB) / K) [0 ..< N] @ [22050]"

definition getRangeForIndex :: "int \<Rightarrow> error + MipmapRange" where
  "getRangeForIndex o' =
     (let o' = clamp o' 0 (int N - 1)
      in case array_at IndexToStartFrequency o' of
           Inl e \<Rightarrow> Inl e
         | Inr lo \<Rightarrow>
             (case array_at IndexToStartFrequency (o' + 1) of
                Inl e \<Rightarrow> Inl e
              | Inr hi \<Rightarrow> Inr \<lparr>minFrequency = lo, maxFrequency = hi\<rparr>))"


section \<open>The KISS FFT library\<close>

text \<open>
  The three entry points of \<^verbatim>\<open>kiss_fftr.h\<close> that the source calls.
  \<^item> \<open>kiss_fftr_alloc kiss nfft inverse_fft\<close> tells whether the allocation of a
    configuration succeeds (the source tests the returned pointer).
  \<^item> \<open>kiss_fftr kiss timedata i\<close> is bin \<open>i\<close> of the forward transform of \<open>timedata\<close>,
    for \<open>i\<close> up to half its length.
  \<^item> \<open>kiss_fftri kiss nfft freqdata n\<close> is sample \<open>n\<close> of the inverse transform of size
    \<open>nfft\<close>, for \<open>n\<close> below \<open>nfft\<close>.
\<close>

record kiss_fft =
  kiss_fftr_alloc :: "nat \<Rightarrow> bool \<Rightarrow> bool"
  kiss_fftr :: "real list \<Rightarrow> nat \<Rightarrow> complex"
  kiss_fftri :: "nat \<Rightarrow> complex list \<Rightarrow> nat \<Rightarrow> real"

text \<open>\<^verbatim>\<open>std::polar(rho, theta)\<close>\<close>

definition polar :: "real \<Rightarrow> real \<Rightarrow> complex" where
  "polar rho theta = rcis rho theta"

section \<open>IEEE 754 arithmetic\<close>

text \<open>
  Rounding to nearest, ties to even, as IEEE 754 prescribes it for \<^verbatim>\<open>float\<close> and \<^verbatim>\<open>double\<close>:
  a value is rounded to a multiple of the unit in the last place \<open>u\<close> of its binade
  (\<open>2 ^ (e - 23)\<close> in binary32 and \<open>2 ^ (e - 52)\<close> in binary64, for a value in
  \<open>[2 ^ e, 2 ^ (e + 1))\<close>).
\<close>

definition round_half_even :: "real \<Rightarrow> int" where
  "round_half_even x =
     (let f = \<lfloor>x\<rfloor>; d = x - real_of_int f
      in if d < 1 / 2 then f else if 1 / 2 < d then f + 1 else if even f then f else f + 1)"

definition round_to_ulp :: "real \<Rightarrow> real \<Rightarrow> real" where
  "round_to_ulp u x = real_of_int (round_half_even (x / u)) * u"

text \<open>
  The binary64 value nearest to a real number: the result of an operation on
  \<^verbatim>\<open>double\<close> operands where \<^verbatim>\<open>double\<close> expressions are evaluated in binary64, rounding to
  nearest. The exponent is not bounded: the values rounded here are a \<^verbatim>\<open>size_t\<close>, the
  quotient of 1 by it and the product of two such values, which lie between \<open>2 ^ - 64\<close>
  and \<open>2 ^ 64\<close>, far inside the range of the normal numbers.
\<close>

definition binary64 :: "real \<Rightarrow> real" where
  "binary64 x =
     (if x = 0 then 0
      else round_to_ulp (2 powr (real_of_int \<lfloor>log 2 \<bar>x\<bar>\<rfloor> - 52)) x)"

text \<open>
  A \<^verbatim>\<open>double\<close> with its special values, and the comparison \<^verbatim>\<open>x > c\<close> of a finite \<open>x\<close> with
  it: a comparison with NaN is false.
\<close>

datatype double = Finite real | PosInf | NegInf | NaN

definition greater_than :: "real \<Rightarrow> double \<Rightarrow> bool" where
  "greater_than x c =
     (case c of Finite y \<Rightarrow> x > y | PosInf \<Rightarrow> False | NegInf \<Rightarrow> True | NaN \<Rightarrow> False)"

section \<open>HarmonicProfile\<close>

text \<open>
  A harmonic profile is its virtual method \<^verbatim>\<open>getHarmonic\<close>, from the index of a bin to
  its complex value.
\<close>

type_synonym HarmonicProfile = "nat \<Rightarrow> complex"

text \<open>
  A span of the vector is the offset of its first element and its number of elements.
  Writing a span stores every element; a span that leaves the vector is out of bounds.
\<close>

definition write_span :: "real list \<Rightarrow> int \<Rightarrow> real list \<Rightarrow> error + real list" where
  "write_span mem ptr xs =
     (if xs = [] then Inr mem
      else if 0 \<le> ptr \<and> ptr + int (length xs) \<le> int (length mem)
      then Inr (take (nat ptr) mem @ xs @ drop (nat ptr + length xs) mem)
      else Inl OutOfBounds)"

definition read_span :: "real list \<Rightarrow> int \<Rightarrow> nat \<Rightarrow> error + real list" where
  "read_span mem ptr n =
     (if n = 0 then Inr []
      else if 0 \<le> ptr \<and> ptr + int n \<le> int (length mem)
      then Inr (take n (drop (nat ptr) mem))
      else Inl OutOfBounds)"

text \<open>\<^verbatim>\<open>*dst = v\<close> through a pointer into the vector.\<close>

definition store_at :: "real list \<Rightarrow> int \<Rightarrow> real \<Rightarrow> error + real list" where
  "store_at mem p v =
     (if 0 \<le> p \<and> p < int (length mem) then Inr (mem[nat p := v]) else Inl OutOfBounds)"

text \<open>
  The \<^verbatim>\<open>double\<close> value of \<^verbatim>\<open>index * (1.0 / size)\<close>: the two \<^verbatim>\<open>size_t\<close> operands are
  converted to \<^verbatim>\<open>double\<close>, and the quotient and the product are rounded. (The loop
  evaluates it only for \<open>size \<ge> 2\<close>, so the quotient is finite.)
\<close>

definition normalized_frequency :: "nat \<Rightarrow> nat \<Rightarrow> real" where
  "normalized_frequency index sz =
     binary64 (binary64 (real index) * binary64 (1 / binary64 (real sz)))"

text \<open>
  The loop of \<^verbatim>\<open>HarmonicProfile::generate\<close> over the bins, from \<open>index\<close> on: it stops at
  the first bin for which \<^verbatim>\<open>index * (1.0 / size) > cutoff\<close>.
\<close>

function generate_loop ::
  "HarmonicProfile \<Rightarrow> nat \<Rightarrow> complex \<Rightarrow> double \<Rightarrow> nat \<Rightarrow> complex list \<Rightarrow> complex list" where
  "generate_loop hp sz k cutoff index spec =
     (if index < sz div 2 + 1 then
        (if greater_than (normalized_frequency index sz) cutoff then spec
         else generate_loop hp sz k cutoff (index + 1) (spec[index := k * hp index]))
      else spec)"
  by pat_completeness auto
termination
  by (relation "measure (\<lambda>(hp, sz, k, cutoff, index, spec). sz div 2 + 1 - index)") auto

text \<open>The spectrum that \<^verbatim>\<open>generate\<close> hands to the inverse transform.\<close>

definition generate_spec :: "HarmonicProfile \<Rightarrow> nat \<Rightarrow> real \<Rightarrow> double \<Rightarrow> complex list" where
  "generate_spec hp sz amplitude cutoff =
     (let spec = replicate (sz div 2 + 1) 0;
          k = polar (amplitude * 0.5) (pi / 2)
      in generate_loop hp sz k cutoff 1 spec)"

text \<open>The samples that the inverse transform stores in the table.\<close>

definition generate_table :: "kiss_fft \<Rightarrow> HarmonicProfile \<Rightarrow> nat \<Rightarrow> real \<Rightarrow> double \<Rightarrow> real list" where
  "generate_table kiss hp sz amplitude cutoff =
     map (kiss_fftri kiss sz (generate_spec hp sz amplitude cutoff)) [0 ..< sz]"

text \<open>
  \<^verbatim>\<open>generate(table, amplitude, cutoff)\<close>, where the span \<^verbatim>\<open>table\<close> is \<open>sz\<close> elements of
  \<open>mem\<close> from \<open>ptr\<close> on.
\<close>

definition generate ::
  "kiss_fft \<Rightarrow> HarmonicProfile \<Rightarrow> real list \<Rightarrow> int \<Rightarrow> nat \<Rightarrow> real \<Rightarrow> double \<Rightarrow> error + real list" where
  "generate kiss hp mem ptr sz amplitude cutoff =
     (if \<not> kiss_fftr_alloc kiss sz True then Inl BadAlloc
      else write_span mem ptr (generate_table kiss hp sz amplitude cutoff))"

text \<open>\<^verbatim>\<open>TabulatedHarmonicProfile::getHarmonic\<close>, for the profile over \<open>harmonics\<close>.\<close>

definition TabulatedHarmonicProfile :: "complex list \<Rightarrow> HarmonicProfile" where
  "TabulatedHarmonicProfile harmonics index =
     (if index \<ge> length harmonics then 0 else harmonics ! index)"

section \<open>WavetableMulti\<close>

record WavetableMulti =
  tableSize :: "32 word"
  multiData :: "real list"

text \<open>A default-constructed \<^verbatim>\<open>WavetableMulti\<close>.\<close>

definition WavetableMulti_init :: WavetableMulti where
  "WavetableMulti_init = \<lparr>tableSize = 0, multiData = []\<rparr>"

definition tableExtra :: "32 word" where
  "tableExtra = 4"

definition numTables :: nat where
  "numTables = N"

definition getTablePointer :: "WavetableMulti \<Rightarrow> 32 word \<Rightarrow> int" where
  "getTablePointer wm index = uint (index * (tableSize wm + 2 * tableExtra)) + uint tableExtra"

definition getTable :: "WavetableMulti \<Rightarrow> 32 word \<Rightarrow> error + real list" where
  "getTable wm index = read_span (multiData wm) (getTablePointer wm index) (unat (tableSize wm))"

text \<open>\<^verbatim>\<open>std::vector::resize\<close>: new elements are zero.\<close>

definition resize :: "real list \<Rightarrow> nat \<Rightarrow> real list" where
  "resize v n = take n v @ replicate (n - length v) 0"

definition allocateStorage :: "WavetableMulti \<Rightarrow> 32 word \<Rightarrow> WavetableMulti" where
  "allocateStorage wm tsz =
     wm\<lparr>multiData := resize (multiData wm) (unat ((tsz + 2 * tableExtra) * of_nat numTables)),
        tableSize := tsz\<rparr>"

text \<open>A loop over the table numbers; an error ends it.\<close>

fun for_each :: "nat list \<Rightarrow> ('s \<Rightarrow> nat \<Rightarrow> error + 's) \<Rightarrow> 's \<Rightarrow> error + 's" where
  "for_each [] body s = Inr s"
| "for_each (m # ms) body s =
     (case body s m of Inl e \<Rightarrow> Inl e | Inr s' \<Rightarrow> for_each ms body s')"

text \<open>
  The two inner loops of \<^verbatim>\<open>fillExtra\<close>, with \<open>n\<close> iterations left:
  \<^verbatim>\<open>*dst++ = *src; src = (src + 1 != end) ? (src + 1) : beg;\<close> and
  \<^verbatim>\<open>*dst-- = *src; src = (src != beg) ? (src - 1) : (end - 1);\<close>
\<close>

fun fill_right :: "nat \<Rightarrow> int \<Rightarrow> int \<Rightarrow> int \<Rightarrow> int \<Rightarrow> real list \<Rightarrow> error + real list" where
  "fill_right 0 beg endp src dst mem = Inr mem"
| "fill_right (Suc n) beg endp src dst mem =
     (case array_at mem src of
        Inl e \<Rightarrow> Inl e
      | Inr v \<Rightarrow>
          (case store_at mem dst v of
             Inl e \<Rightarrow> Inl e
           | Inr mem' \<Rightarrow>
               fill_right n beg endp (if src + 1 \<noteq> endp then src + 1 else beg) (dst + 1) mem'))"

fun fill_left :: "nat \<Rightarrow> int \<Rightarrow> int \<Rightarrow> int \<Rightarrow> int \<Rightarrow> real list \<Rightarrow> error + real list" where
  "fill_left 0 beg endp src dst mem = Inr mem"
| "fill_left (Suc n) beg endp src dst mem =
     (case array_at mem src of
        Inl e \<Rightarrow> Inl e
      | Inr v \<Rightarrow>
          (case store_at mem dst v of
             Inl e \<Rightarrow> Inl e
           | Inr mem' \<Rightarrow>
               fill_left n beg endp (if src \<noteq> beg then src - 1 else endp - 1) (dst - 1) mem'))"

text \<open>The body of the loop of \<^verbatim>\<open>fillExtra\<close> for table \<open>m\<close>.\<close>

definition fillExtra_body :: "WavetableMulti \<Rightarrow> nat \<Rightarrow> error + WavetableMulti" where
  "fillExtra_body wm m =
     (let beg = getTablePointer wm (of_nat m);
          endp = beg + uint (tableSize wm)
      in case fill_right (unat tableExtra) beg endp beg endp (multiData wm) of
           Inl e \<Rightarrow> Inl e
         | Inr mem \<Rightarrow>
             (case fill_left (unat tableExtra) beg endp (endp - 1) (beg - 1) mem of
                Inl e \<Rightarrow> Inl e
              | Inr mem' \<Rightarrow> Inr (wm\<lparr>multiData := mem'\<rparr>)))"

definition fillExtra :: "WavetableMulti \<Rightarrow> error + WavetableMulti" where
  "fillExtra wm = for_each [0 ..< numTables] fillExtra_body wm"

text \<open>The body of the loop of \<^verbatim>\<open>createForHarmonicProfile\<close> for table \<open>m\<close>.\<close>

definition createForHarmonicProfile_body ::
  "kiss_fft \<Rightarrow> HarmonicProfile \<Rightarrow> real \<Rightarrow> 32 word \<Rightarrow> real \<Rightarrow> WavetableMulti \<Rightarrow> nat
     \<Rightarrow> error + WavetableMulti" where
  "createForHarmonicProfile_body kiss hp amplitude tsz refSampleRate wm m =
     (case getRangeForIndex (int m) of
        Inl e \<Rightarrow> Inl e
      | Inr rng \<Rightarrow>
          (let freq = maxFrequency rng;
               cutoff = Finite ((0.5 * refSampleRate / real (unat tsz)) / freq);
               ptr = getTablePointer wm (of_nat m)
           in case generate kiss hp (multiData wm) ptr (unat tsz) amplitude cutoff of
                Inl e \<Rightarrow> Inl e
              | Inr mem \<Rightarrow> Inr (wm\<lparr>multiData := mem\<rparr>)))"

definition createForHarmonicProfile ::
  "kiss_fft \<Rightarrow> HarmonicProfile \<Rightarrow> real \<Rightarrow> 32 word \<Rightarrow> real \<Rightarrow> error + WavetableMulti" where
  "createForHarmonicProfile kiss hp amplitude tsz refSampleRate =
     (let wm = allocateStorage WavetableMulti_init tsz
      in case for_each [0 ..< numTables]
                (createForHarmonicProfile_body kiss hp amplitude tsz refSampleRate) wm of
           Inl e \<Rightarrow> Inl e
         | Inr wm' \<Rightarrow> fillExtra wm')"

text \<open>The loop \<^verbatim>\<open>for (size_t i = 0; i < specSize; ++i) spec[i] *= k;\<close> from \<open>i\<close> on.\<close>

function scale_loop :: "complex \<Rightarrow> nat \<Rightarrow> nat \<Rightarrow> complex list \<Rightarrow> complex list" where
  "scale_loop k specSize i spec =
     (if i < specSize then scale_loop k specSize (i + 1) (spec[i := spec ! i * k]) else spec)"
  by pat_completeness auto
termination
  by (relation "measure (\<lambda>(k, specSize, i, spec). specSize - i)") auto

definition createFromAudioData ::
  "kiss_fft \<Rightarrow> real list \<Rightarrow> real \<Rightarrow> 32 word \<Rightarrow> real \<Rightarrow> error + WavetableMulti" where
  "createFromAudioData kiss audioData amplitude tsz refSampleRate =
     (let fftSize = length audioData;
          specSize = fftSize div 2 + 1
      in if \<not> kiss_fftr_alloc kiss fftSize False then Inl BadAlloc
         else
           (let spec = map (kiss_fftr kiss audioData) [0 ..< specSize];
                k = polar (2.0 / real fftSize) (- pi / 2);
                spec = scale_loop k specSize 0 spec;
                hp = TabulatedHarmonicProfile spec
            in createForHarmonicProfile kiss hp amplitude tsz refSampleRate))"

section \<open>Notions used to state the claims\<close>

text \<open>
  \<open>row_cell wm m j\<close> is \<^verbatim>\<open>row[j]\<close> for the row of table \<open>m\<close>, the element \<open>j\<close> places after
  \<^verbatim>\<open>getTablePointer(m)\<close> (before it when \<open>j\<close> is negative), read inside the bounds of
  \<^verbatim>\<open>_multiData\<close>. \<open>wrap_padded wm\<close> says that the \<^verbatim>\<open>_tableExtra\<close> guard elements on each side of
  every row continue the row cyclically.
\<close>

definition row_cell :: "WavetableMulti \<Rightarrow> nat \<Rightarrow> int \<Rightarrow> error + real" where
  "row_cell wm m j = array_at (multiData wm) (getTablePointer wm (of_nat m) + j)"

definition wrap_padded :: "WavetableMulti \<Rightarrow> bool" where
  "wrap_padded wm \<longleftrightarrow>
     (\<forall>m<numTables. \<forall>k<unat tableExtra. \<exists>v w.
         row_cell wm m (uint (tableSize wm) + int k) = Inr v
       \<and> row_cell wm m (int k mod uint (tableSize wm)) = Inr v
       \<and> row_cell wm m (- 1 - int k) = Inr w
       \<and> row_cell wm m ((uint (tableSize wm) - 1 - int k) mod uint (tableSize wm)) = Inr w)"

text \<open>
  A stand-in for the KISS FFT library, used to instantiate the theorems at concrete
  inputs: the allocation succeeds for even sizes, and the transforms are simple
  functions of their input. Sample \<open>n\<close> of the inverse transform is \<open>n + 1\<close> times the sum of
  the real and imaginary parts of all the bins, so that the samples of a table differ from
  each other and change with every bin that the cutoff keeps or drops.
\<close>

definition sample_fft :: kiss_fft where
  "sample_fft =
     \<lparr>kiss_fftr_alloc = (\<lambda>nfft inverse_fft. even nfft),
      kiss_fftr = (\<lambda>timedata i. complex_of_real (timedata ! i)),
      kiss_fftri = (\<lambda>nfft freqdata n. real (n + 1) * (\<Sum>z\<leftarrow>freqdata. Re z + Im z))\<rparr>"

section \<open>Auxiliary notions of the proofs\<close>



text \<open>
  The samples that \<^verbatim>\<open>createForHarmonicProfile\<close> generates for table \<open>m\<close>, and the
  wrap-around of the guard elements of a row that starts at offset \<open>b\<close> of \<open>mem\<close>.
\<close>

definition band_table :: "kiss_fft \<Rightarrow> HarmonicProfile \<Rightarrow> real \<Rightarrow> 32 word \<Rightarrow> real \<Rightarrow> nat \<Rightarrow> real list" where
  "band_table kiss hp amplitude tsz refSampleRate m =
     generate_table kiss hp (unat tsz) amplitude
       (Finite ((0.5 * refSampleRate / real (unat tsz)) / IndexToStartFrequency ! (m + 1)))"

definition padded_row :: "real list \<Rightarrow> nat \<Rightarrow> nat \<Rightarrow> bool" where
  "padded_row mem ts b \<longleftrightarrow>
     (\<forall>k<4. mem ! (b + ts + k) = mem ! (b + k mod ts)
          \<and> mem ! (b - 1 - k) = mem ! (b + nat ((int ts - 1 - int k) mod int ts)))"

declare generate_loop.simps [simp del]

declare scale_loop.simps [simp del]

section \<open>Facts about the static tables\<close>

lemma LogB_pos: "0 < LogB"
  by (simp add: LogB_def FN_def F1_def N_def)

lemma length_FrequencyToIndex: "length FrequencyToIndex = 1024"
  by (simp add: FrequencyToIndex_def FrequencyToIndex_size_def)

lemma length_IndexToStartFrequency: "length IndexToStartFrequency = 25"
  by (simp add: IndexToStartFrequency_def N_def)

lemma FrequencyToIndex_nth:
  "i < 1023 \<Longrightarrow> FrequencyToIndex ! i = getExactIndexForFrequency (F1 + real i * (1 / 1023) * (FN - F1))"
  by (simp add: FrequencyToIndex_def FrequencyToIndex_size_def nth_append Let_def)

lemma FrequencyToIndex_last: "FrequencyToIndex ! 1023 = real (N - 1)"
  by (simp add: FrequencyToIndex_def FrequencyToIndex_size_def nth_append)

lemma getExact_F1: "getExactIndexForFrequency F1 = 0"
  by (simp add: getExactIndexForFrequency_def K_def F1_def clamp_def N_def)

lemma clamp_range: "lo \<le> hi \<Longrightarrow> lo \<le> clamp x lo hi \<and> clamp x lo hi \<le> hi"
  by (auto simp: clamp_def)

lemma clamp_id: "lo \<le> x \<Longrightarrow> x \<le> hi \<Longrightarrow> clamp x lo hi = x"
  by (auto simp: clamp_def)








lemma getRangeForIndex_eq:
  "getRangeForIndex i =
     Inr \<lparr>minFrequency = IndexToStartFrequency ! nat (clamp i 0 23),
          maxFrequency = IndexToStartFrequency ! (nat (clamp i 0 23) + 1)\<rparr>"
proof -
  have "0 \<le> clamp i 0 23 \<and> clamp i 0 23 \<le> 23" by (rule clamp_range) simp
  then show ?thesis
    by (simp add: getRangeForIndex_def Let_def N_def array_at_def length_IndexToStartFrequency
        nat_add_distrib)
qed

lemma K_pos: "0 < K" by (simp add: K_def F1_def)

lemma IndexToStartFrequency_nth:
  "t < 24 \<Longrightarrow> IndexToStartFrequency ! t = exp (real t * LogB) / K"
  by (simp add: IndexToStartFrequency_def N_def nth_append)

lemma IndexToStartFrequency_last: "IndexToStartFrequency ! 24 = 22050"
  by (simp add: IndexToStartFrequency_def N_def nth_append)

lemma exp_23_LogB: "exp (23 * LogB) = 600"
  by (simp add: LogB_def FN_def F1_def N_def)

lemma IndexToStartFrequency_mono:
  assumes "i \<le> j" "j \<le> 24"
  shows "IndexToStartFrequency ! i \<le> IndexToStartFrequency ! j"
proof (cases "j < 24")
  case True
  then have "real i * LogB \<le> real j * LogB" using assms LogB_pos by simp
  then show ?thesis using True assms K_pos
    by (simp add: IndexToStartFrequency_nth divide_le_cancel)
next
  case False
  then have j: "j = 24" using assms by simp
  show ?thesis
  proof (cases "i < 24")
    case True
    then have "real i * LogB \<le> 23 * LogB" using LogB_pos by simp
    then have "exp (real i * LogB) \<le> 600" using exp_23_LogB by (metis exp_le_cancel_iff)
    then show ?thesis using True j
      by (simp add: IndexToStartFrequency_nth IndexToStartFrequency_last K_def F1_def)
  next
    case False
    then have "i = j" using j assms by linarith
    then show ?thesis by simp
  qed
qed

lemma sorted_IndexToStartFrequency: "sorted IndexToStartFrequency"
  unfolding sorted_iff_nth_mono
  using IndexToStartFrequency_mono by (simp add: length_IndexToStartFrequency)


lemma LogB_23: "23 * LogB = ln 600"
  by (simp add: LogB_def FN_def F1_def N_def)






lemma band_0_max: "exp LogB / K < 27"
proof -
  have "(600 :: real) < (27 / 20) ^ 23" by (simp add: power_divide)
  then have "ln (600 :: real) < ln ((27 / 20) ^ 23)"
    by (subst ln_less_cancel_iff) simp_all
  moreover have "ln ((27 / 20 :: real) ^ 23) = 23 * ln (27 / 20)"
    by (subst ln_realpow) simp
  ultimately have "LogB < ln (27 / 20)" using LogB_23 by (simp only:)
  then have "exp LogB < 27 / 20" by (metis exp_less_mono exp_ln zero_less_divide_iff zero_less_numeral)
  then show ?thesis by (simp add: K_def F1_def)
qed












text \<open>
  In real arithmetic the last band starts exactly at \<open>FN\<close>, the frequency whose lookup
  selects it: the start of the selected band is at or below the frequency with no margin
  there.
\<close>

lemma last_band_starts_at_FN:
  "IndexToStartFrequency ! 23 = FN \<and> getIndexForFrequency FN = Inr 23"
proof -
  have "IndexToStartFrequency ! 23 = FN"
    using IndexToStartFrequency_nth [of 23] exp_23_LogB by (simp add: K_def F1_def FN_def)
  moreover have "getIndexForFrequency FN = Inr 23"
    using FrequencyToIndex_last
    by (simp add: getIndexForFrequency_def Let_def FrequencyToIndex_size_def clamp_def
        static_cast_int_def array_at_def length_FrequencyToIndex FN_def F1_def N_def)
  ultimately show ?thesis by simp
qed

section \<open>Rounding on the path of the two boundary lookups\<close>

text \<open>
  The lookup at \<open>FN\<close> multiplies \<open>FN - F1 = 11980\<close> by the binary32 quotient of 1023 and
  11980. The quotient lies in \<open>[2 ^ -4, 2 ^ -3)\<close> and rounds to \<open>11461163 / 2 ^ 27\<close>; the
  product lies in \<open>[2 ^ 9, 2 ^ 10)\<close>, a little below 1023, and rounds to 1023: the position
  computed in binary32 is the exact position.
\<close>

lemma binary32_lookup_factor:
  "1 / 16 \<le> (1023 / 11980 :: real) \<and> (1023 / 11980 :: real) < 1 / 8
   \<and> round_to_ulp (1 / 2 ^ 27) (1023 / 11980) = 11461163 / 2 ^ 27"
  by (simp add: round_to_ulp_def round_half_even_def Let_def)

lemma binary32_position_at_FN:
  "512 \<le> 11980 * (11461163 / 2 ^ 27 :: real) \<and> 11980 * (11461163 / 2 ^ 27 :: real) < 1024
   \<and> round_to_ulp (1 / 2 ^ 14) (11980 * (11461163 / 2 ^ 27)) = 1023"
  by (simp add: round_to_ulp_def round_half_even_def Let_def)

text \<open>
  The lookup at \<open>F1\<close> reads entry 0 of the table, the exact index of \<open>F1\<close>, which takes the
  logarithm of \<open>K * F1\<close>. \<open>K\<close> is the binary64 quotient \<open>1.0 / F1\<close> converted to binary32,
  \<open>13421773 / 2 ^ 28\<close>, and its binary32 product with 20 rounds to 1: the argument of the
  logarithm computed in binary32 is exactly 1.
\<close>

lemma binary32_K_times_F1:
  "1 / 32 \<le> (1 / 20 :: real) \<and> (1 / 20 :: real) < 1 / 16
   \<and> round_to_ulp (1 / 2 ^ 57) (1 / 20) = 7205759403792794 / 2 ^ 57
   \<and> round_to_ulp (1 / 2 ^ 28) (7205759403792794 / 2 ^ 57) = 13421773 / 2 ^ 28
   \<and> 1 \<le> 13421773 / 2 ^ 28 * (20 :: real) \<and> 13421773 / 2 ^ 28 * (20 :: real) < 2
   \<and> round_to_ulp (1 / 2 ^ 23) (13421773 / 2 ^ 28 * 20) = 1"
  by (simp add: round_to_ulp_def round_half_even_def Let_def)

section \<open>Facts about the rounding to binary64\<close>

lemma round_half_even_cases:
  "round_half_even x = \<lfloor>x\<rfloor> \<or> round_half_even x = \<lfloor>x\<rfloor> + 1"
  by (simp add: round_half_even_def Let_def)

lemma round_half_even_of_int: "round_half_even (real_of_int n) = n"
  by (simp add: round_half_even_def Let_def)

lemma round_half_even_mono:
  assumes "x \<le> y"
  shows "round_half_even x \<le> round_half_even y"
proof (cases "\<lfloor>x\<rfloor> < \<lfloor>y\<rfloor>")
  case True
  then show ?thesis
    using round_half_even_cases [of x] round_half_even_cases [of y] by linarith
next
  case False
  then have e: "\<lfloor>x\<rfloor> = \<lfloor>y\<rfloor>" using floor_mono [OF assms] by linarith
  show ?thesis using assms by (auto simp add: round_half_even_def Let_def e)
qed

lemma round_half_even_ge: "real_of_int n \<le> x \<Longrightarrow> n \<le> round_half_even x"
  using round_half_even_mono [of "real_of_int n" x] by (simp add: round_half_even_of_int)

lemma round_half_even_le: "x \<le> real_of_int n \<Longrightarrow> round_half_even x \<le> n"
  using round_half_even_mono [of x "real_of_int n"] by (simp add: round_half_even_of_int)

lemma binary64_eq:
  assumes "2 powr real_of_int e \<le> \<bar>x\<bar>" "\<bar>x\<bar> < 2 powr (real_of_int e + 1)"
  shows "binary64 x = round_to_ulp (2 powr (real_of_int e - 52)) x"
proof -
  have p: "0 < \<bar>x\<bar>" using assms(1) by (smt (verit) powr_gt_zero)
  have "\<lfloor>log 2 \<bar>x\<bar>\<rfloor> = e"
    using assms floor_log_eq_powr_iff [of "\<bar>x\<bar>" 2 e] p by simp
  then show ?thesis using p by (simp add: binary64_def)
qed

lemma binary64_bounds:
  assumes "2 powr real_of_int e \<le> x" "x < 2 powr (real_of_int e + 1)"
  shows "2 powr real_of_int e \<le> binary64 x" "binary64 x \<le> 2 powr (real_of_int e + 1)"
proof -
  define u :: real where "u = 2 powr (real_of_int e - 52)"
  have u: "0 < u" by (simp add: u_def)
  have x: "0 < x" using assms(1) by (smt (verit) powr_gt_zero)
  have b: "binary64 x = real_of_int (round_half_even (x / u)) * u"
    using binary64_eq [of e x] assms x by (simp add: u_def round_to_ulp_def)
  have lo: "2 powr real_of_int e = real_of_int (2 ^ 52) * u"
    by (simp add: u_def powr_diff)
  have hi: "2 powr (real_of_int e + 1) = real_of_int (2 ^ 53) * u"
    by (simp add: u_def powr_diff powr_add)
  have "real_of_int (2 ^ 52) \<le> x / u"
    using assms(1) u unfolding lo by (simp add: pos_le_divide_eq)
  then have "2 ^ 52 \<le> round_half_even (x / u)" by (rule round_half_even_ge)
  then have "real_of_int (2 ^ 52) \<le> real_of_int (round_half_even (x / u))" by linarith
  then show "2 powr real_of_int e \<le> binary64 x"
    unfolding b lo using u by (simp only: mult_le_cancel_right_pos)
  have "x / u \<le> real_of_int (2 ^ 53)"
    using assms(2) u unfolding hi by (simp add: pos_divide_le_eq)
  then have "round_half_even (x / u) \<le> 2 ^ 53" by (rule round_half_even_le)
  then have "real_of_int (round_half_even (x / u)) \<le> real_of_int (2 ^ 53)" by linarith
  then show "binary64 x \<le> 2 powr (real_of_int e + 1)"
    unfolding b hi using u by (simp only: mult_le_cancel_right_pos)
qed

lemma binade:
  assumes "0 < x"
  shows "2 powr real_of_int \<lfloor>log 2 x\<rfloor> \<le> x" "x < 2 powr (real_of_int \<lfloor>log 2 x\<rfloor> + 1)"
  using floor_log_eq_powr_iff [of x 2 "\<lfloor>log 2 x\<rfloor>"] assms by simp_all

lemma binary64_mono:
  assumes "0 \<le> x" "x \<le> y"
  shows "binary64 x \<le> binary64 y"
proof (cases "x = 0")
  case True
  show ?thesis
  proof (cases "y = 0")
    case True
    then show ?thesis using \<open>x = 0\<close> by simp
  next
    case False
    then have y: "0 < y" using assms by simp
    have "0 \<le> 2 powr real_of_int \<lfloor>log 2 y\<rfloor>" by simp
    also have "\<dots> \<le> binary64 y" using binary64_bounds(1) [OF binade [OF y]] .
    finally show ?thesis using \<open>x = 0\<close> by (simp add: binary64_def)
  qed
next
  case False
  then have x: "0 < x" using assms by simp
  then have y: "0 < y" using assms by simp
  define ex where "ex = \<lfloor>log 2 x\<rfloor>"
  define ey where "ey = \<lfloor>log 2 y\<rfloor>"
  note bx = binade [OF x, folded ex_def]
  note by' = binade [OF y, folded ey_def]
  have le: "ex \<le> ey"
    unfolding ex_def ey_def using x y assms(2) by (intro floor_mono log_mono) simp_all
  show ?thesis
  proof (cases "ex = ey")
    case True
    define u :: real where "u = 2 powr (real_of_int ey - 52)"
    have u: "0 < u" by (simp add: u_def)
    have b1: "binary64 x = real_of_int (round_half_even (x / u)) * u"
      using binary64_eq [of ex x] bx x by (simp add: u_def round_to_ulp_def True)
    have b2: "binary64 y = real_of_int (round_half_even (y / u)) * u"
      using binary64_eq [of ey y] by' y by (simp add: u_def round_to_ulp_def)
    have "x / u \<le> y / u" using assms(2) u by (simp add: divide_right_mono)
    then have "round_half_even (x / u) \<le> round_half_even (y / u)" by (rule round_half_even_mono)
    then have "real_of_int (round_half_even (x / u)) \<le> real_of_int (round_half_even (y / u))"
      by linarith
    then show ?thesis unfolding b1 b2 using u by (simp only: mult_le_cancel_right_pos)
  next
    case False
    then have "ex + 1 \<le> ey" using le by linarith
    then have "real_of_int ex + 1 \<le> real_of_int ey" by linarith
    then have "(2::real) powr (real_of_int ex + 1) \<le> 2 powr real_of_int ey" by simp
    then show ?thesis
      using binary64_bounds(2) [OF bx] binary64_bounds(1) [OF by'] by linarith
  qed
qed

lemma binary64_nonneg: "0 \<le> x \<Longrightarrow> 0 \<le> binary64 x"
  using binary64_mono [of 0 x] by (simp add: binary64_def)

lemma normalized_frequency_mono:
  assumes "i \<le> j"
  shows "normalized_frequency i sz \<le> normalized_frequency j sz"
proof -
  have "0 \<le> binary64 (real sz)" by (rule binary64_nonneg) simp
  then have r: "0 \<le> binary64 (1 / binary64 (real sz))"
    by (intro binary64_nonneg) simp
  have "binary64 (real i) \<le> binary64 (real j)" using assms by (intro binary64_mono) simp_all
  then have "binary64 (real i) * binary64 (1 / binary64 (real sz))
      \<le> binary64 (real j) * binary64 (1 / binary64 (real sz))"
    using r by (rule mult_right_mono)
  moreover have "0 \<le> binary64 (real i)" by (rule binary64_nonneg) simp
  then have "0 \<le> binary64 (real i) * binary64 (1 / binary64 (real sz))"
    using r by (rule mult_nonneg_nonneg)
  ultimately show ?thesis unfolding normalized_frequency_def by (rule binary64_mono [rotated])
qed

lemma greater_than_mono:
  assumes "x \<le> y" "greater_than x c"
  shows "greater_than y c"
  using assms by (cases c) (simp_all add: greater_than_def)

lemma binary64_round:
  assumes "2 powr real_of_int e \<le> \<bar>x\<bar>" "\<bar>x\<bar> < 2 powr (real_of_int e + 1)"
  shows "binary64 x =
     real_of_int (round_half_even (x / 2 powr (real_of_int e - 52))) * 2 powr (real_of_int e - 52)"
  using binary64_eq [OF assms] by (simp only: round_to_ulp_def)

lemma binary64_values:
  "binary64 (1) = 1"
  "binary64 (2) = 2"
  "binary64 (3) = 3"
  "binary64 (4) = 4"
  "binary64 (6) = 6"
  "binary64 (8) = 8"
  "binary64 (10) = 10"
  "binary64 (1 / 2) = 1 / 2"
  "binary64 (1 / 4) = 1 / 4"
  "binary64 (1 / 8) = 1 / 8"
  "binary64 (1 / 6) = 6004799503160661 / 2 ^ 55"
  "binary64 (1 / 10) = 3602879701896397 / 2 ^ 55"
  "binary64 (3 / 10) = 5404319552844595 / 2 ^ 54"
  "binary64 (1 * (1 / 2)) = 1 / 2"
  "binary64 (1 * (1 / 4)) = 1 / 4"
  "binary64 (2 * (1 / 4)) = 1 / 2"
  "binary64 (2 * (1 / 8)) = 1 / 4"
  "binary64 (3 * (1 / 8)) = 3 / 8"
  "binary64 (1 * (6004799503160661 / 2 ^ 55)) = 6004799503160661 / 2 ^ 55"
  "binary64 (3 * (3602879701896397 / 2 ^ 55)) = 5404319552844596 / 2 ^ 54"
  using binary64_eq [of "0" "1"]
    apply (simp add: round_to_ulp_def round_half_even_def Let_def powr_neg_numeral)
  using binary64_eq [of "1" "2"]
    apply (simp add: round_to_ulp_def round_half_even_def Let_def powr_neg_numeral)
  using binary64_eq [of "1" "3"]
    apply (simp add: round_to_ulp_def round_half_even_def Let_def powr_neg_numeral)
  using binary64_eq [of "2" "4"]
    apply (simp add: round_to_ulp_def round_half_even_def Let_def powr_neg_numeral)
  using binary64_eq [of "2" "6"]
    apply (simp add: round_to_ulp_def round_half_even_def Let_def powr_neg_numeral)
  using binary64_eq [of "3" "8"]
    apply (simp add: round_to_ulp_def round_half_even_def Let_def powr_neg_numeral)
  using binary64_eq [of "3" "10"]
    apply (simp add: round_to_ulp_def round_half_even_def Let_def powr_neg_numeral)
  using binary64_eq [of "- 1" "1 / 2"]
    apply (simp add: round_to_ulp_def round_half_even_def Let_def powr_neg_numeral)
  using binary64_eq [of "- 2" "1 / 4"]
    apply (simp add: round_to_ulp_def round_half_even_def Let_def powr_neg_numeral)
  using binary64_eq [of "- 3" "1 / 8"]
    apply (simp add: round_to_ulp_def round_half_even_def Let_def powr_neg_numeral)
  using binary64_eq [of "- 3" "1 / 6"]
    apply (simp add: round_to_ulp_def round_half_even_def Let_def powr_neg_numeral)
  using binary64_eq [of "- 4" "1 / 10"]
    apply (simp add: round_to_ulp_def round_half_even_def Let_def powr_neg_numeral)
  using binary64_eq [of "- 2" "3 / 10"]
    apply (simp add: round_to_ulp_def round_half_even_def Let_def powr_neg_numeral)
  using binary64_eq [of "- 1" "1 * (1 / 2)"]
    apply (simp add: round_to_ulp_def round_half_even_def Let_def powr_neg_numeral)
  using binary64_eq [of "- 2" "1 * (1 / 4)"]
    apply (simp add: round_to_ulp_def round_half_even_def Let_def powr_neg_numeral)
  using binary64_eq [of "- 1" "2 * (1 / 4)"]
    apply (simp add: round_to_ulp_def round_half_even_def Let_def powr_neg_numeral)
  using binary64_eq [of "- 2" "2 * (1 / 8)"]
    apply (simp add: round_to_ulp_def round_half_even_def Let_def powr_neg_numeral)
  using binary64_eq [of "- 2" "3 * (1 / 8)"]
    apply (simp add: round_to_ulp_def round_half_even_def Let_def powr_neg_numeral)
  using binary64_eq [of "- 3" "1 * (6004799503160661 / 2 ^ 55)"]
    apply (simp add: round_to_ulp_def round_half_even_def Let_def powr_neg_numeral)
  using binary64_eq [of "- 2" "3 * (3602879701896397 / 2 ^ 55)"]
    apply (simp add: round_to_ulp_def round_half_even_def Let_def powr_neg_numeral)
  done

lemma normalized_frequency_values:
  "normalized_frequency 1 2 = 1 / 2"
  "normalized_frequency 1 4 = 1 / 4"
  "normalized_frequency 2 4 = 1 / 2"
  "normalized_frequency 2 8 = 1 / 4"
  "normalized_frequency 3 8 = 3 / 8"
  "normalized_frequency 1 6 = 6004799503160661 / 2 ^ 55"
  "normalized_frequency 3 10 = 5404319552844596 / 2 ^ 54"
  unfolding normalized_frequency_def
  by (simp_all only: of_nat_numeral of_nat_1 binary64_values)

lemma normalized_frequency_values_Suc:
  "normalized_frequency (Suc 0) 2 = 1 / 2"
  "normalized_frequency (Suc 0) 4 = 1 / 4"
  "normalized_frequency (Suc 0) 6 = 6004799503160661 / 2 ^ 55"
  using normalized_frequency_values by simp_all

section \<open>Facts about the loops and the storage\<close>

lemma fill_right_spec:
  fixes beg endp src dst :: int
  assumes "0 \<le> beg" "beg \<le> src" "src < endp" "endp \<le> dst" "dst + int n \<le> int (length mem)"
  shows "\<exists>mem'. fill_right n beg endp src dst mem = Inr mem' \<and> length mem' = length mem
          \<and> (\<forall>p. 0 \<le> p \<and> p < int (length mem) \<longrightarrow>
                mem' ! nat p =
                  (if dst \<le> p \<and> p < dst + int n
                   then mem ! nat (beg + (src - beg + (p - dst)) mod (endp - beg))
                   else mem ! nat p))"
  using assms
proof (induction n arbitrary: src dst mem)
  case 0
  then show ?case by simp
next
  case (Suc n)
  define L where "L = endp - beg"
  have L: "0 < L" using Suc.prems by (simp add: L_def)
  define src' where "src' = (if src + 1 \<noteq> endp then src + 1 else beg)"
  define mem1 where "mem1 = mem[nat dst := mem ! nat src]"
  have ld: "array_at mem src = Inr (mem ! nat src)"
    using Suc.prems by (simp add: array_at_def)
  have st: "store_at mem dst (mem ! nat src) = Inr mem1"
    using Suc.prems by (simp add: store_at_def mem1_def)
  have s': "beg \<le> src'" "src' < endp" using Suc.prems by (auto simp: src'_def)
  have s'm: "src' - beg = (src - beg + 1) mod L"
  proof (cases "src + 1 = endp")
    case True
    then have "src - beg + 1 = L" by (simp add: L_def)
    then show ?thesis using True by (simp add: src'_def)
  next
    case False
    then have "0 \<le> src - beg + 1" "src - beg + 1 < L" using Suc.prems by (simp_all add: L_def)
    then show ?thesis using False by (simp add: src'_def)
  qed
  have len1: "length mem1 = length mem" by (simp add: mem1_def)
  from Suc.IH [of src' "dst + 1" mem1] s' Suc.prems len1
  obtain mem' where m': "fill_right n beg endp src' (dst + 1) mem1 = Inr mem'"
    "length mem' = length mem"
    "\<And>p. 0 \<le> p \<Longrightarrow> p < int (length mem) \<Longrightarrow>
        mem' ! nat p = (if dst + 1 \<le> p \<and> p < dst + 1 + int n
                   then mem1 ! nat (beg + (src' - beg + (p - (dst + 1))) mod L)
                   else mem1 ! nat p)"
    by (auto simp: L_def)
  have run: "fill_right (Suc n) beg endp src dst mem = Inr mem'"
    using ld st m'(1) by (simp add: src'_def)
  have cell: "mem' ! nat p =
                  (if dst \<le> p \<and> p < dst + int (Suc n)
                   then mem ! nat (beg + (src - beg + (p - dst)) mod L)
                   else mem ! nat p)"
    if p: "0 \<le> p" "p < int (length mem)" for p
  proof -
    consider "p = dst" | "dst + 1 \<le> p \<and> p < dst + 1 + int n" | "p < dst \<or> dst + 1 + int n \<le> p"
      by linarith
    then show ?thesis
    proof cases
      case 1
      have "(src - beg) mod L = src - beg" using Suc.prems by (simp add: L_def)
      then show ?thesis using 1 m'(3) [OF p] p by (simp add: mem1_def)
    next
      case 2
      define q where "q = beg + (src' - beg + (p - (dst + 1))) mod L"
      have "0 \<le> q - beg" "q - beg < L" using L by (simp_all add: q_def)
      then have q: "beg \<le> q" "q < endp" by (simp_all add: L_def)
      then have "nat q \<noteq> nat dst" using Suc.prems by linarith
      then have a: "mem1 ! nat q = mem ! nat q" by (simp add: mem1_def)
      have "(src' - beg + (p - (dst + 1))) mod L = (src - beg + 1 + (p - (dst + 1))) mod L"
        unfolding s'm by (rule mod_add_left_eq)
      then have "q = beg + (src - beg + (p - dst)) mod L" by (simp add: q_def algebra_simps)
      then show ?thesis using 2 m'(3) [OF p] a by (simp add: q_def [symmetric])
    next
      case 3
      then have "nat p \<noteq> nat dst" using p Suc.prems by linarith
      then show ?thesis using 3 m'(3) [OF p] by (auto simp: mem1_def)
    qed
  qed
  show ?case using run m'(2) cell by (auto simp: L_def)
qed

lemma fill_left_spec:
  fixes beg endp src dst :: int
  assumes "beg \<le> src" "src < endp" "endp \<le> int (length mem)" "dst < beg" "int n \<le> dst + 1"
  shows "\<exists>mem'. fill_left n beg endp src dst mem = Inr mem' \<and> length mem' = length mem
          \<and> (\<forall>p. 0 \<le> p \<and> p < int (length mem) \<longrightarrow>
                mem' ! nat p =
                  (if dst - int n < p \<and> p \<le> dst
                   then mem ! nat (beg + (src - beg - (dst - p)) mod (endp - beg))
                   else mem ! nat p))"
  using assms
proof (induction n arbitrary: src dst mem)
  case 0
  then show ?case by simp
next
  case (Suc n)
  define L where "L = endp - beg"
  have L: "0 < L" using Suc.prems by (simp add: L_def)
  define src' where "src' = (if src \<noteq> beg then src - 1 else endp - 1)"
  define mem1 where "mem1 = mem[nat dst := mem ! nat src]"
  have d0: "0 \<le> dst" using Suc.prems by simp
  have b0: "0 \<le> beg" using Suc.prems d0 by simp
  have ld: "array_at mem src = Inr (mem ! nat src)"
    using Suc.prems b0 by (simp add: array_at_def)
  have st: "store_at mem dst (mem ! nat src) = Inr mem1"
    using Suc.prems d0 by (simp add: store_at_def mem1_def)
  have s': "beg \<le> src'" "src' < endp" using Suc.prems by (auto simp: src'_def)
  have s'm: "src' - beg = (src - beg - 1) mod L"
  proof (cases "src = beg")
    case True
    have "(- 1) mod L = L - 1" using L by (simp add: zmod_minus1)
    then show ?thesis using True by (simp add: src'_def L_def)
  next
    case False
    then have "0 \<le> src - beg - 1" "src - beg - 1 < L" using Suc.prems by (simp_all add: L_def)
    then show ?thesis using False by (simp add: src'_def)
  qed
  have len1: "length mem1 = length mem" by (simp add: mem1_def)
  from Suc.IH [of src' mem1 "dst - 1"] s' Suc.prems len1
  obtain mem' where m': "fill_left n beg endp src' (dst - 1) mem1 = Inr mem'"
    "length mem' = length mem"
    "\<And>p. 0 \<le> p \<Longrightarrow> p < int (length mem) \<Longrightarrow>
        mem' ! nat p = (if dst - 1 - int n < p \<and> p \<le> dst - 1
                   then mem1 ! nat (beg + (src' - beg - (dst - 1 - p)) mod L)
                   else mem1 ! nat p)"
    by (auto simp: L_def)
  have run: "fill_left (Suc n) beg endp src dst mem = Inr mem'"
    using ld st m'(1) by (simp add: src'_def)
  have cell: "mem' ! nat p =
                  (if dst - int (Suc n) < p \<and> p \<le> dst
                   then mem ! nat (beg + (src - beg - (dst - p)) mod L)
                   else mem ! nat p)"
    if p: "0 \<le> p" "p < int (length mem)" for p
  proof -
    consider "p = dst" | "dst - 1 - int n < p \<and> p \<le> dst - 1" | "p \<le> dst - 1 - int n \<or> dst < p"
      by linarith
    then show ?thesis
    proof cases
      case 1
      have "(src - beg) mod L = src - beg" using Suc.prems by (simp add: L_def)
      then show ?thesis using 1 m'(3) [OF p] p by (simp add: mem1_def)
    next
      case 2
      define q where "q = beg + (src' - beg - (dst - 1 - p)) mod L"
      have "0 \<le> q - beg" "q - beg < L" using L by (simp_all add: q_def)
      then have q: "beg \<le> q" "q < endp" by (simp_all add: L_def)
      then have "nat q \<noteq> nat dst" using Suc.prems d0 by linarith
      then have a: "mem1 ! nat q = mem ! nat q" by (simp add: mem1_def)
      have "(src' - beg - (dst - 1 - p)) mod L = (src - beg - 1 - (dst - 1 - p)) mod L"
        unfolding s'm by (rule mod_diff_left_eq)
      then have "q = beg + (src - beg - (dst - p)) mod L" by (simp add: q_def algebra_simps)
      then show ?thesis using 2 m'(3) [OF p] a by (simp add: q_def [symmetric])
    next
      case 3
      then have "nat p \<noteq> nat dst" using p d0 by linarith
      then show ?thesis using 3 m'(3) [OF p] by (auto simp: mem1_def)
    qed
  qed
  show ?case using run m'(2) cell by (auto simp: L_def)
qed

lemma for_each_rule:
  assumes "P ds s"
    and "\<And>ds m s. P ds s \<Longrightarrow> m \<in> set ms \<Longrightarrow> \<exists>s'. body s m = Inr s' \<and> P (ds @ [m]) s'"
  shows "\<exists>s'. for_each ms body s = Inr s' \<and> P (ds @ ms) s'"
  using assms
proof (induction ms arbitrary: ds s)
  case Nil
  then show ?case by simp
next
  case (Cons m ms)
  from Cons.prems(2) [OF Cons.prems(1), of m]
  obtain s1 where s1: "body s m = Inr s1" "P (ds @ [m]) s1" by auto
  have "\<exists>s'. for_each ms body s1 = Inr s' \<and> P ((ds @ [m]) @ ms) s'"
    by (rule Cons.IH [OF s1(2)]) (use Cons.prems(2) in auto)
  then show ?case using s1(1) by simp
qed

text \<open>Two rows do not share a cell, and every row lies inside the storage.\<close>
lemma rows_disjoint:
  fixes m m' s :: nat
  assumes "m' \<noteq> m" "m * s \<le> p" "p < m * s + s" "m' * s \<le> p'" "p' < m' * s + s"
  shows "p \<noteq> p'"
proof (cases "m < m'")
  case True
  then have "(m + 1) * s \<le> m' * s" by (intro mult_le_mono1) simp
  then show ?thesis using assms by simp
next
  case False
  then have "(m' + 1) * s \<le> m * s" using assms(1) by (intro mult_le_mono1) simp
  then show ?thesis using assms by simp
qed

lemma row_in_bounds:
  fixes m s :: nat
  assumes "m < 24"
  shows "m * s + s \<le> s * 24"
proof -
  have "(m + 1) * s \<le> 24 * s" using assms by (intro mult_le_mono1) simp
  then show ?thesis by (simp add: mult.commute)
qed

lemma table_words:
  fixes tsz :: "32 word"
  assumes "(unat tsz + 8) * 24 < 2 ^ 32"
  shows "unat (tsz + 2 * tableExtra) = unat tsz + 8"
    and "unat ((tsz + 2 * tableExtra) * of_nat numTables) = (unat tsz + 8) * 24"
    and "m < 24 \<Longrightarrow>
      uint (of_nat m * (tsz + 2 * tableExtra)) + uint tableExtra = int (m * (unat tsz + 8) + 4)"
proof -
  define s where "s = tsz + 2 * tableExtra"
  have e: "unat (2 * tableExtra) = 8" "unat tableExtra = 4" by (simp_all add: tableExtra_def)
  have "unat tsz + unat (2 * tableExtra) < 2 ^ LENGTH(32)" using assms e by simp
  then have a: "unat s = unat tsz + 8"
    unfolding s_def using e by (simp only: unat_add_lem [THEN iffD1])
  show "unat (tsz + 2 * tableExtra) = unat tsz + 8" using a by (simp only: s_def)
  have n24: "unat (of_nat numTables :: 32 word) = 24" by (simp add: numTables_def N_def)
  have "unat s * unat (of_nat numTables :: 32 word) < 2 ^ LENGTH(32)"
    using assms by (simp only: a n24) simp
  then have "unat (s * of_nat numTables) = unat s * unat (of_nat numTables :: 32 word)"
    by (simp only: unat_mult_lem [THEN iffD1])
  then have "unat (s * of_nat numTables) = (unat tsz + 8) * 24"
    by (simp only: a n24)
  then show "unat ((tsz + 2 * tableExtra) * of_nat numTables) = (unat tsz + 8) * 24"
    by (simp only: s_def)
  show "uint (of_nat m * (tsz + 2 * tableExtra)) + uint tableExtra = int (m * (unat tsz + 8) + 4)"
    if m: "m < 24"
  proof -
    have "m * (unat tsz + 8) + (unat tsz + 8) \<le> (unat tsz + 8) * 24"
      using m by (rule row_in_bounds)
    then have lt: "m * (unat tsz + 8) + 4 < 2 ^ 32" using assms by simp
    have um: "unat (of_nat m :: 32 word) = m" using m by (simp add: unat_of_nat)
    have "unat (of_nat m :: 32 word) * unat s < 2 ^ LENGTH(32)"
      using lt by (simp only: um a) simp
    then have pm: "unat (of_nat m * s) = m * (unat tsz + 8)"
      by (simp only: unat_mult_lem [THEN iffD1] um a)
    have "uint (of_nat m * s) + uint tableExtra = int (m * (unat tsz + 8)) + int 4"
      by (simp only: uint_nat pm e)
    then show ?thesis by (simp only: s_def of_nat_add)
  qed
qed

lemma getTablePointer_eq:
  assumes "(unat tsz + 8) * 24 < 2 ^ 32" "m < 24" "tableSize wm = tsz"
  shows "getTablePointer wm (of_nat m) = int (m * (unat tsz + 8) + 4)"
  using table_words(3) [OF assms(1,2)] assms(3) by (simp add: getTablePointer_def)

lemma allocateStorage_init:
  assumes "(unat tsz + 8) * 24 < 2 ^ 32"
  shows "tableSize (allocateStorage WavetableMulti_init tsz) = tsz"
    and "multiData (allocateStorage WavetableMulti_init tsz) = replicate ((unat tsz + 8) * 24) 0"
  using table_words(2) [OF assms]
  by (simp_all add: allocateStorage_def WavetableMulti_init_def resize_def)

lemma write_span_spec:
  assumes "b + length xs \<le> length mem"
  shows "\<exists>mem'. write_span mem (int b) xs = Inr mem' \<and> length mem' = length mem
          \<and> (\<forall>p < length mem. mem' ! p =
                (if b \<le> p \<and> p < b + length xs then xs ! (p - b) else mem ! p))"
proof (cases "xs = []")
  case True
  then show ?thesis by (simp add: write_span_def)
next
  case False
  define mem' where "mem' = take b mem @ xs @ drop (b + length xs) mem"
  have "int b + int (length xs) \<le> int (length mem)" using assms by linarith
  then have w: "write_span mem (int b) xs = Inr mem'"
    using False by (simp add: write_span_def mem'_def)
  have len: "length mem' = length mem" using assms by (simp add: mem'_def)
  have cell: "mem' ! p = (if b \<le> p \<and> p < b + length xs then xs ! (p - b) else mem ! p)"
    if p: "p < length mem" for p
  proof -
    consider "p < b" | "b \<le> p \<and> p < b + length xs" | "b + length xs \<le> p"
      by linarith
    then show ?thesis
    proof cases
      case 1
      then show ?thesis using assms by (simp add: mem'_def nth_append)
    next
      case 2
      then have a: "\<not> p < b" "p - b < length xs" by linarith+
      show ?thesis using 2 assms a by (simp add: mem'_def nth_append)
    next
      case 3
      then have a: "\<not> p < b" "\<not> p - b < length xs" "b + length xs + (p - b - length xs) = p"
        by linarith+
      show ?thesis using 3 assms a by (simp add: mem'_def nth_append)
    qed
  qed
  show ?thesis using w len cell by blast
qed

lemma read_span_spec:
  assumes "0 \<le> ptr" "ptr + int n \<le> int (length mem)"
  shows "read_span mem ptr n = Inr (map (\<lambda>j. mem ! (nat ptr + j)) [0 ..< n])"
proof -
  have "nat ptr + n \<le> length mem" using assms by linarith
  then have "take n (drop (nat ptr) mem) = map (\<lambda>j. mem ! (nat ptr + j)) [0 ..< n]"
    by (intro nth_equalityI) simp_all
  then show ?thesis using assms by (simp add: read_span_def)
qed

lemma generate_loop_spec:
  assumes "length spec = sz div 2 + 1"
  shows "length (generate_loop hp sz k c index spec) = sz div 2 + 1
       \<and> (\<forall>i < sz div 2 + 1. generate_loop hp sz k c index spec ! i =
            (if index \<le> i \<and> \<not> greater_than (normalized_frequency i sz) c
             then k * hp i else spec ! i))"
  using assms
proof (induction hp sz k c index spec rule: generate_loop.induct)
  case (1 hp sz k c index spec)
  show ?case
  proof (cases "index < sz div 2 + 1")
    case False
    then have "generate_loop hp sz k c index spec = spec"
      by (subst generate_loop.simps) simp
    then show ?thesis using False "1.prems" by auto
  next
    case in_range: True
    show ?thesis
    proof (cases "greater_than (normalized_frequency index sz) c")
      case True
      have "\<not> (index \<le> i \<and> \<not> greater_than (normalized_frequency i sz) c)" for i
      proof
        assume i: "index \<le> i \<and> \<not> greater_than (normalized_frequency i sz) c"
        then have "normalized_frequency index sz \<le> normalized_frequency i sz"
          by (intro normalized_frequency_mono) simp
        then show False using True i greater_than_mono by blast
      qed
      moreover have "generate_loop hp sz k c index spec = spec"
        using in_range True by (subst generate_loop.simps) simp
      ultimately show ?thesis using "1.prems" by auto
    next
      case False
      have len: "length (spec[index := k * hp index]) = sz div 2 + 1"
        using "1.prems" by simp
      note IH = "1.IH" [OF in_range False len]
      have eq: "generate_loop hp sz k c index spec
          = generate_loop hp sz k c (index + 1) (spec[index := k * hp index])"
        using in_range False by (subst generate_loop.simps) simp
      have "generate_loop hp sz k c (index + 1) (spec[index := k * hp index]) ! i =
            (if index \<le> i \<and> \<not> greater_than (normalized_frequency i sz) c
             then k * hp i else spec ! i)"
        if i: "i < sz div 2 + 1" for i
      proof (cases "i = index")
        case True
        then show ?thesis using IH i False "1.prems" by simp
      next
        case False
        then have "index + 1 \<le> i \<longleftrightarrow> index \<le> i" by auto
        then show ?thesis using IH i False by simp
      qed
      then show ?thesis using IH eq by simp
    qed
  qed
qed

lemma generate_spec_nth:
  "length (generate_spec hp sz a c) = sz div 2 + 1
   \<and> (\<forall>i < sz div 2 + 1. generate_spec hp sz a c ! i =
         (if 1 \<le> i \<and> \<not> greater_than (normalized_frequency i sz) c
          then polar (a * 0.5) (pi / 2) * hp i else 0))"
proof -
  define k where "k = polar (a * 0.5) (pi / 2)"
  define z :: "complex list" where "z = replicate (sz div 2 + 1) 0"
  have e: "generate_spec hp sz a c = generate_loop hp sz k c 1 z"
    unfolding generate_spec_def Let_def k_def z_def ..
  have zn: "z ! i = 0" if "i < sz div 2 + 1" for i
    unfolding z_def using that by (rule nth_replicate)
  have "length z = sz div 2 + 1" by (simp add: z_def)
  from generate_loop_spec [OF this, of hp k c 1]
  show ?thesis unfolding e k_def [symmetric] using zn by auto
qed

lemma generate_spec_cong:
  assumes "\<forall>i. 1 \<le> i \<longrightarrow> hp1 i = hp2 i"
  shows "generate_spec hp1 S a c = generate_spec hp2 S a c"
proof (rule nth_equalityI)
  show "length (generate_spec hp1 S a c) = length (generate_spec hp2 S a c)"
    using generate_spec_nth [of hp1 S a c] generate_spec_nth [of hp2 S a c] by simp
  fix i assume "i < length (generate_spec hp1 S a c)"
  then have i: "i < S div 2 + 1" using generate_spec_nth [of hp1 S a c] by simp
  show "generate_spec hp1 S a c ! i = generate_spec hp2 S a c ! i"
    using generate_spec_nth [of hp1 S a c] generate_spec_nth [of hp2 S a c] i assms by simp
qed

lemma length_band_table: "length (band_table kiss hp a tsz rate m) = unat tsz"
  by (simp add: band_table_def generate_table_def)

lemma getRangeForIndex_band:
  assumes "m < 24"
  shows "getRangeForIndex (int m) =
     Inr \<lparr>minFrequency = IndexToStartFrequency ! m, maxFrequency = IndexToStartFrequency ! (m + 1)\<rparr>"
proof -
  have "clamp (int m) 0 23 = int m" using assms by (simp add: clamp_id)
  then show ?thesis by (simp add: getRangeForIndex_eq)
qed

lemma create_body_step:
  assumes H: "(unat tsz + 8) * 24 < 2 ^ 32"
    and alloc: "kiss_fftr_alloc kiss (unat tsz) True"
    and m: "m < 24"
    and wm: "tableSize wm = tsz" "length (multiData wm) = (unat tsz + 8) * 24"
  shows "\<exists>wm'. createForHarmonicProfile_body kiss hp a tsz rate wm m = Inr wm'
      \<and> tableSize wm' = tsz \<and> length (multiData wm') = (unat tsz + 8) * 24
      \<and> (\<forall>p < (unat tsz + 8) * 24. multiData wm' ! p =
            (if m * (unat tsz + 8) + 4 \<le> p \<and> p < m * (unat tsz + 8) + 4 + unat tsz
             then band_table kiss hp a tsz rate m ! (p - (m * (unat tsz + 8) + 4))
             else multiData wm ! p))"
proof -
  define b where "b = m * (unat tsz + 8) + 4"
  define T where "T = band_table kiss hp a tsz rate m"
  have lT: "length T = unat tsz" by (simp add: T_def length_band_table)
  have ptr: "getTablePointer wm (of_nat m) = int b"
    using getTablePointer_eq [OF H m wm(1)] by (simp add: b_def)
  have "m * (unat tsz + 8) + (unat tsz + 8) \<le> (unat tsz + 8) * 24"
    using m by (rule row_in_bounds)
  then have fit: "b + length T \<le> length (multiData wm)"
    by (simp add: b_def lT wm(2))
  from write_span_spec [OF fit]
  obtain mem' where mem': "write_span (multiData wm) (int b) T = Inr mem'"
    "length mem' = length (multiData wm)"
    "\<And>p. p < length (multiData wm) \<Longrightarrow>
        mem' ! p = (if b \<le> p \<and> p < b + length T then T ! (p - b) else multiData wm ! p)"
    by auto
  have gen: "generate kiss hp (multiData wm) (int b) (unat tsz) a
      (Finite ((0.5 * rate / real (unat tsz)) / IndexToStartFrequency ! (m + 1))) = Inr mem'"
    using alloc mem'(1) by (simp add: generate_def T_def band_table_def)
  have run: "createForHarmonicProfile_body kiss hp a tsz rate wm m = Inr (wm\<lparr>multiData := mem'\<rparr>)"
    unfolding createForHarmonicProfile_body_def getRangeForIndex_band [OF m] Let_def ptr
    using gen by simp
  have cell: "mem' ! p = (if b \<le> p \<and> p < b + unat tsz then T ! (p - b) else multiData wm ! p)"
    if "p < (unat tsz + 8) * 24" for p
    using mem'(3) [of p] that by (simp only: wm(2) lT)
  show ?thesis
    using run mem'(2) cell wm by (auto simp: b_def T_def)
qed

lemma create_rows:
  assumes H: "(unat tsz + 8) * 24 < 2 ^ 32"
    and alloc: "kiss_fftr_alloc kiss (unat tsz) True"
  shows "\<exists>wm. for_each [0 ..< numTables] (createForHarmonicProfile_body kiss hp a tsz rate)
                 (allocateStorage WavetableMulti_init tsz) = Inr wm
      \<and> tableSize wm = tsz \<and> length (multiData wm) = (unat tsz + 8) * 24
      \<and> (\<forall>m<24. \<forall>j<unat tsz.
            multiData wm ! (m * (unat tsz + 8) + 4 + j) = band_table kiss hp a tsz rate m ! j)"
proof -
  define s where "s = unat tsz + 8"
  define P :: "nat list \<Rightarrow> WavetableMulti \<Rightarrow> bool"
    where "P ds wm \<longleftrightarrow> tableSize wm = tsz \<and> length (multiData wm) = s * 24
      \<and> (\<forall>m\<in>set ds. m < 24 \<and> (\<forall>j<unat tsz.
            multiData wm ! (m * s + 4 + j) = band_table kiss hp a tsz rate m ! j))" for ds wm
  have init: "P [] (allocateStorage WavetableMulti_init tsz)"
    using allocateStorage_init [OF H] by (simp add: P_def s_def)
  have step: "\<exists>wm'. createForHarmonicProfile_body kiss hp a tsz rate wm m = Inr wm' \<and> P (ds @ [m]) wm'"
    if P: "P ds wm" and mm: "m \<in> set [0 ..< numTables]" for ds m wm
  proof -
    have m: "m < 24" using mm by (simp add: numTables_def N_def)
    have wm: "tableSize wm = tsz" "length (multiData wm) = (unat tsz + 8) * 24"
      using P by (simp_all add: P_def s_def)
    from create_body_step [OF H alloc m wm, of hp a rate]
    obtain wm' where wm': "createForHarmonicProfile_body kiss hp a tsz rate wm m = Inr wm'"
      "tableSize wm' = tsz" "length (multiData wm') = s * 24"
      "\<And>p. p < s * 24 \<Longrightarrow> multiData wm' ! p =
            (if m * s + 4 \<le> p \<and> p < m * s + 4 + unat tsz
             then band_table kiss hp a tsz rate m ! (p - (m * s + 4))
             else multiData wm ! p)"
      by (auto simp: s_def)
    have new: "multiData wm' ! (m * s + 4 + j) = band_table kiss hp a tsz rate m ! j"
      if j: "j < unat tsz" for j
    proof -
      have "m * s + s \<le> s * 24" using m by (rule row_in_bounds)
      then have "m * s + 4 + j < s * 24" using j by (simp add: s_def)
      then show ?thesis using wm'(4) [of "m * s + 4 + j"] j by simp
    qed
    have old: "multiData wm' ! (m' * s + 4 + j) = band_table kiss hp a tsz rate m' ! j"
      if m': "m' \<in> set ds" and j: "j < unat tsz" for m' j
    proof (cases "m' = m")
      case True
      then show ?thesis using new [OF j] by simp
    next
      case False
      have m'24: "m' < 24" and o: "multiData wm ! (m' * s + 4 + j) = band_table kiss hp a tsz rate m' ! j"
        using P m' j by (auto simp: P_def)
      have "m' * s + s \<le> s * 24" using m'24 by (rule row_in_bounds)
      then have lt: "m' * s + 4 + j < s * 24" using j by (simp add: s_def)
      have "\<not> (m * s + 4 \<le> m' * s + 4 + j \<and> m' * s + 4 + j < m * s + 4 + unat tsz)"
      proof
        assume a: "m * s + 4 \<le> m' * s + 4 + j \<and> m' * s + 4 + j < m * s + 4 + unat tsz"
        have "m' * s + 4 + j \<noteq> m' * s + 4 + j"
          by (rule rows_disjoint [OF False, of s]) (use a j in \<open>simp_all add: s_def\<close>)
        then show False by simp
      qed
      then have "multiData wm' ! (m' * s + 4 + j) = multiData wm ! (m' * s + 4 + j)"
        using wm'(4) [OF lt] by (simp only: if_False)
      then show ?thesis using o by simp
    qed
    have "P (ds @ [m]) wm'"
      using wm'(2,3) new old m P by (auto simp: P_def)
    then show ?thesis using wm'(1) by blast
  qed
  have "\<exists>wm. for_each [0 ..< numTables] (createForHarmonicProfile_body kiss hp a tsz rate)
                 (allocateStorage WavetableMulti_init tsz) = Inr wm
            \<and> P ([] @ [0 ..< numTables]) wm"
  proof (rule for_each_rule [where P = P])
    show "P [] (allocateStorage WavetableMulti_init tsz)" by (rule init)
    show "\<exists>wm'. createForHarmonicProfile_body kiss hp a tsz rate wm m = Inr wm' \<and> P (ds @ [m]) wm'"
      if "P ds wm" "m \<in> set [0 ..< numTables]" for ds m wm
      using that by (rule step)
  qed
  then show ?thesis by (auto simp: P_def s_def numTables_def N_def)
qed

lemma fill_right_row:
  assumes "0 < ts" "b + ts + 4 \<le> length mem"
  shows "\<exists>mem'. fill_right 4 (int b) (int b + int ts) (int b) (int b + int ts) mem = Inr mem'
          \<and> length mem' = length mem
          \<and> (\<forall>k<4. mem' ! (b + ts + k) = mem ! (b + k mod ts))
          \<and> (\<forall>p < length mem. \<not> (b + ts \<le> p \<and> p < b + ts + 4) \<longrightarrow> mem' ! p = mem ! p)"
proof -
  have "\<exists>mem'. fill_right 4 (int b) (int b + int ts) (int b) (int b + int ts) mem = Inr mem'
          \<and> length mem' = length mem
          \<and> (\<forall>p. 0 \<le> p \<and> p < int (length mem) \<longrightarrow>
                mem' ! nat p =
                  (if int b + int ts \<le> p \<and> p < int b + int ts + int 4
                   then mem ! nat (int b + (int b - int b + (p - (int b + int ts))) mod (int b + int ts - int b))
                   else mem ! nat p))"
  proof (rule fill_right_spec)
    show "0 \<le> int b" "int b \<le> int b" "int b + int ts \<le> int b + int ts" by simp_all
    show "int b < int b + int ts" using assms(1) by simp
    show "int b + int ts + int 4 \<le> int (length mem)" using assms(2) by linarith
  qed
  then obtain mem' where a: "fill_right 4 (int b) (int b + int ts) (int b) (int b + int ts) mem = Inr mem'"
      "length mem' = length mem"
    and c: "\<And>p. 0 \<le> p \<and> p < int (length mem) \<Longrightarrow>
                mem' ! nat p =
                  (if int b + int ts \<le> p \<and> p < int b + int ts + int 4
                   then mem ! nat (int b + (int b - int b + (p - (int b + int ts))) mod (int b + int ts - int b))
                   else mem ! nat p)"
    by blast
  have right: "mem' ! (b + ts + k) = mem ! (b + k mod ts)" if k: "k < 4" for k
  proof -
    define p where "p = int (b + ts + k)"
    have r: "0 \<le> p \<and> p < int (length mem)" using assms(2) k unfolding p_def by linarith
    have i: "int b + int ts \<le> p \<and> p < int b + int ts + int 4" using k unfolding p_def by linarith
    have "int b - int b + (p - (int b + int ts)) = int k" unfolding p_def by linarith
    moreover have "int b + int ts - int b = int ts" by linarith
    ultimately have "int b + (int b - int b + (p - (int b + int ts))) mod (int b + int ts - int b)
        = int b + int k mod int ts" by (simp only:)
    also have "\<dots> = int (b + k mod ts)" by (simp only: of_nat_add of_nat_mod)
    finally have "nat (int b + (int b - int b + (p - (int b + int ts))) mod (int b + int ts - int b))
        = b + k mod ts" by (simp only: nat_int)
    moreover have "nat p = b + ts + k" unfolding p_def by (simp only: nat_int)
    ultimately show ?thesis using c [OF r] i by (simp only: if_True simp_thms)
  qed
  have frame: "mem' ! p = mem ! p" if p: "p < length mem" and n: "\<not> (b + ts \<le> p \<and> p < b + ts + 4)" for p
  proof -
    have r: "0 \<le> int p \<and> int p < int (length mem)" using p by linarith
    have i: "\<not> (int b + int ts \<le> int p \<and> int p < int b + int ts + int 4)" using n by linarith
    show ?thesis using c [OF r] i by (simp only: if_False nat_int simp_thms)
  qed
  show ?thesis using a right frame by blast
qed

lemma fill_left_row:
  assumes "0 < ts" "4 \<le> b" "b + ts \<le> length mem"
  shows "\<exists>mem'. fill_left 4 (int b) (int b + int ts) (int b + int ts - 1) (int b - 1) mem = Inr mem'
          \<and> length mem' = length mem
          \<and> (\<forall>k<4. mem' ! (b - 1 - k) = mem ! (b + nat ((int ts - 1 - int k) mod int ts)))
          \<and> (\<forall>p < length mem. \<not> (b - 4 \<le> p \<and> p < b) \<longrightarrow> mem' ! p = mem ! p)"
proof -
  have "\<exists>mem'. fill_left 4 (int b) (int b + int ts) (int b + int ts - 1) (int b - 1) mem = Inr mem'
          \<and> length mem' = length mem
          \<and> (\<forall>p. 0 \<le> p \<and> p < int (length mem) \<longrightarrow>
                mem' ! nat p =
                  (if int b - 1 - int 4 < p \<and> p \<le> int b - 1
                   then mem ! nat (int b + (int b + int ts - 1 - int b - (int b - 1 - p)) mod (int b + int ts - int b))
                   else mem ! nat p))"
  proof (rule fill_left_spec)
    show "int b \<le> int b + int ts - 1" using assms(1) by linarith
    show "int b + int ts - 1 < int b + int ts" by simp
    show "int b + int ts \<le> int (length mem)" using assms(3) by linarith
    show "int b - 1 < int b" by simp
    show "int 4 \<le> int b - 1 + 1" using assms(2) by linarith
  qed
  then obtain mem' where a: "fill_left 4 (int b) (int b + int ts) (int b + int ts - 1) (int b - 1) mem = Inr mem'"
      "length mem' = length mem"
    and c: "\<And>p. 0 \<le> p \<and> p < int (length mem) \<Longrightarrow>
                mem' ! nat p =
                  (if int b - 1 - int 4 < p \<and> p \<le> int b - 1
                   then mem ! nat (int b + (int b + int ts - 1 - int b - (int b - 1 - p)) mod (int b + int ts - int b))
                   else mem ! nat p)"
    by blast
  have left: "mem' ! (b - 1 - k) = mem ! (b + nat ((int ts - 1 - int k) mod int ts))" if k: "k < 4" for k
  proof -
    define p where "p = int (b - 1 - k)"
    define q where "q = (int ts - 1 - int k) mod int ts"
    have q: "0 \<le> q" using assms(1) unfolding q_def by simp
    have r: "0 \<le> p \<and> p < int (length mem)" using assms k unfolding p_def by linarith
    have i: "int b - 1 - int 4 < p \<and> p \<le> int b - 1" using assms(2) k unfolding p_def by linarith
    have "int b + int ts - 1 - int b - (int b - 1 - p) = int ts - 1 - int k"
      using assms(2) k unfolding p_def by linarith
    moreover have "int b + int ts - int b = int ts" by linarith
    ultimately have "int b + (int b + int ts - 1 - int b - (int b - 1 - p)) mod (int b + int ts - int b)
        = int b + q" unfolding q_def by (simp only:)
    moreover have "nat (int b + q) = b + nat q" using q by linarith
    ultimately have "nat (int b + (int b + int ts - 1 - int b - (int b - 1 - p)) mod (int b + int ts - int b))
        = b + nat q" by (simp only:)
    moreover have "nat p = b - 1 - k" unfolding p_def by (simp only: nat_int)
    ultimately show ?thesis using c [OF r] i unfolding q_def by (simp only: if_True simp_thms)
  qed
  have frame: "mem' ! p = mem ! p" if p: "p < length mem" and n: "\<not> (b - 4 \<le> p \<and> p < b)" for p
  proof -
    have r: "0 \<le> int p \<and> int p < int (length mem)" using p by linarith
    have i: "\<not> (int b - 1 - int 4 < int p \<and> int p \<le> int b - 1)" using n assms(2) by linarith
    show ?thesis using c [OF r] i by (simp only: if_False nat_int simp_thms)
  qed
  show ?thesis using a left frame by blast
qed

lemma fillExtra_body_step:
  assumes H: "(unat tsz + 8) * 24 < 2 ^ 32"
    and pos: "0 < unat tsz"
    and m: "m < 24"
    and wm: "tableSize wm = tsz" "length (multiData wm) = (unat tsz + 8) * 24"
  shows "\<exists>wm'. fillExtra_body wm m = Inr wm'
      \<and> tableSize wm' = tsz \<and> length (multiData wm') = (unat tsz + 8) * 24
      \<and> (\<forall>k<4. multiData wm' ! (m * (unat tsz + 8) + 4 + unat tsz + k)
                  = multiData wm ! (m * (unat tsz + 8) + 4 + k mod unat tsz)
             \<and> multiData wm' ! (m * (unat tsz + 8) + 4 - 1 - k)
                  = multiData wm ! (m * (unat tsz + 8) + 4 + nat ((int (unat tsz) - 1 - int k) mod int (unat tsz))))
      \<and> (\<forall>p < (unat tsz + 8) * 24.
            \<not> (m * (unat tsz + 8) \<le> p \<and> p < m * (unat tsz + 8) + 4) \<longrightarrow>
            \<not> (m * (unat tsz + 8) + 4 + unat tsz \<le> p \<and> p < m * (unat tsz + 8) + 4 + unat tsz + 4) \<longrightarrow>
            multiData wm' ! p = multiData wm ! p)"
proof -
  define ts where "ts = unat tsz"
  define b where "b = m * (ts + 8) + 4"
  define mem where "mem = multiData wm"
  have ts: "0 < ts" using pos by (simp add: ts_def)
  have len: "length mem = (ts + 8) * 24" by (simp add: mem_def wm(2) ts_def)
  have "m * (ts + 8) + (ts + 8) \<le> (ts + 8) * 24" using m by (rule row_in_bounds)
  then have fit: "b + ts + 4 \<le> length mem" by (simp add: b_def len)
  have b4: "4 \<le> b" "b - 4 = m * (ts + 8)" by (simp_all add: b_def)
  have ptr: "getTablePointer wm (of_nat m) = int b"
    using getTablePointer_eq [OF H m wm(1)] by (simp add: b_def ts_def)
  have ut: "uint (tableSize wm) = int ts" by (simp only: wm(1) ts_def uint_nat)
  have e4: "unat tableExtra = 4" by (simp add: tableExtra_def)
  from fill_right_row [OF ts fit]
  obtain mem1 where mem1:
    "fill_right 4 (int b) (int b + int ts) (int b) (int b + int ts) mem = Inr mem1"
    "length mem1 = length mem"
    "\<And>k. k < 4 \<Longrightarrow> mem1 ! (b + ts + k) = mem ! (b + k mod ts)"
    "\<And>p. p < length mem \<Longrightarrow> \<not> (b + ts \<le> p \<and> p < b + ts + 4) \<Longrightarrow> mem1 ! p = mem ! p"
    by blast
  have fit1: "b + ts \<le> length mem1" using fit mem1(2) by simp
  from fill_left_row [OF ts b4(1) fit1]
  obtain mem2 where mem2:
    "fill_left 4 (int b) (int b + int ts) (int b + int ts - 1) (int b - 1) mem1 = Inr mem2"
    "length mem2 = length mem1"
    "\<And>k. k < 4 \<Longrightarrow> mem2 ! (b - 1 - k) = mem1 ! (b + nat ((int ts - 1 - int k) mod int ts))"
    "\<And>p. p < length mem1 \<Longrightarrow> \<not> (b - 4 \<le> p \<and> p < b) \<Longrightarrow> mem2 ! p = mem1 ! p"
    by blast
  have run: "fillExtra_body wm m = Inr (wm\<lparr>multiData := mem2\<rparr>)"
    unfolding fillExtra_body_def Let_def ptr ut e4 mem_def [symmetric]
    by (simp only: mem1(1) mem2(1) sum.case)
  have right: "mem2 ! (b + ts + k) = mem ! (b + k mod ts)" if k: "k < 4" for k
  proof -
    have "b + ts + k < length mem1" using fit k mem1(2) by simp
    moreover have "\<not> (b - 4 \<le> b + ts + k \<and> b + ts + k < b)" by simp
    ultimately have "mem2 ! (b + ts + k) = mem1 ! (b + ts + k)" by (rule mem2(4))
    then show ?thesis using mem1(3) [OF k] by simp
  qed
  have left: "mem2 ! (b - 1 - k) = mem ! (b + nat ((int ts - 1 - int k) mod int ts))" if k: "k < 4" for k
  proof -
    define q where "q = nat ((int ts - 1 - int k) mod int ts)"
    have "(int ts - 1 - int k) mod int ts < int ts" using ts by simp
    then have q: "q < ts" unfolding q_def using ts by linarith
    have "b + q < length mem" using fit q by simp
    moreover have "\<not> (b + ts \<le> b + q \<and> b + q < b + ts + 4)" using q by simp
    ultimately have "mem1 ! (b + q) = mem ! (b + q)" by (rule mem1(4))
    then show ?thesis using mem2(3) [OF k] by (simp add: q_def)
  qed
  have frame: "mem2 ! p = mem ! p"
    if p: "p < length mem" and nl: "\<not> (m * (ts + 8) \<le> p \<and> p < b)"
      and nr: "\<not> (b + ts \<le> p \<and> p < b + ts + 4)" for p
  proof -
    have "mem2 ! p = mem1 ! p" using p nl mem1(2) b4(2) by (intro mem2(4)) simp_all
    then show ?thesis using mem1(4) [OF p nr] by simp
  qed
  have l2: "length mem2 = (ts + 8) * 24" using mem2(2) mem1(2) len by simp
  define wm' where "wm' = wm\<lparr>multiData := mem2\<rparr>"
  have w: "tableSize wm' = tsz" "multiData wm' = mem2" by (simp_all add: wm'_def wm(1))
  have final: "fillExtra_body wm m = Inr wm'
      \<and> tableSize wm' = tsz \<and> length (multiData wm') = (ts + 8) * 24
      \<and> (\<forall>k<4. multiData wm' ! (m * (ts + 8) + 4 + ts + k) = mem ! (m * (ts + 8) + 4 + k mod ts)
             \<and> multiData wm' ! (m * (ts + 8) + 4 - 1 - k)
                  = mem ! (m * (ts + 8) + 4 + nat ((int ts - 1 - int k) mod int ts)))
      \<and> (\<forall>p < (ts + 8) * 24.
            \<not> (m * (ts + 8) \<le> p \<and> p < m * (ts + 8) + 4) \<longrightarrow>
            \<not> (m * (ts + 8) + 4 + ts \<le> p \<and> p < m * (ts + 8) + 4 + ts + 4) \<longrightarrow>
            multiData wm' ! p = mem ! p)"
    unfolding w(2) b_def [symmetric]
  proof (intro conjI allI impI)
    show "fillExtra_body wm m = Inr wm'" using run by (simp only: wm'_def)
    show "tableSize wm' = tsz" by (rule w(1))
    show "length mem2 = (ts + 8) * 24" by (rule l2)
    show "mem2 ! (b + ts + k) = mem ! (b + k mod ts)" if "k < 4" for k using that by (rule right)
    show "mem2 ! (b - 1 - k) = mem ! (b + nat ((int ts - 1 - int k) mod int ts))" if "k < 4" for k
      using that by (rule left)
    show "mem2 ! p = mem ! p"
      if "p < (ts + 8) * 24" "\<not> (m * (ts + 8) \<le> p \<and> p < b)" "\<not> (b + ts \<le> p \<and> p < b + ts + 4)" for p
    proof (rule frame)
      show "p < length mem" using that(1) by (simp only: len)
    qed (rule that(2), rule that(3))
  qed
  show ?thesis
    by (rule exI [of _ wm']) (rule final [unfolded ts_def mem_def])
qed

lemma cell_outside:
  fixes m m' ts p :: nat
  assumes "m' \<noteq> m" "m' * (ts + 8) \<le> p" "p < m' * (ts + 8) + (ts + 8)"
  shows "\<not> (m * (ts + 8) \<le> p \<and> p < m * (ts + 8) + 4)"
    and "\<not> (m * (ts + 8) + 4 + ts \<le> p \<and> p < m * (ts + 8) + 4 + ts + 4)"
proof -
  have "\<not> (m * (ts + 8) \<le> p \<and> p < m * (ts + 8) + (ts + 8))"
  proof
    assume a: "m * (ts + 8) \<le> p \<and> p < m * (ts + 8) + (ts + 8)"
    have "p \<noteq> p" by (rule rows_disjoint [OF assms(1), of "ts + 8"]) (use a assms in simp_all)
    then show False by simp
  qed
  then show "\<not> (m * (ts + 8) \<le> p \<and> p < m * (ts + 8) + 4)"
    and "\<not> (m * (ts + 8) + 4 + ts \<le> p \<and> p < m * (ts + 8) + 4 + ts + 4)"
    by linarith+
qed

lemma padded_row_cong:
  assumes same: "\<And>p. b - 4 \<le> p \<Longrightarrow> p < b + ts + 4 \<Longrightarrow> mem' ! p = mem ! p"
    and ts: "0 < ts" and b: "4 \<le> b"
    and pad: "padded_row mem ts b"
  shows "padded_row mem' ts b"
  unfolding padded_row_def
proof (intro allI impI conjI)
  fix k :: nat assume k: "k < 4"
  define q where "q = nat ((int ts - 1 - int k) mod int ts)"
  have "(int ts - 1 - int k) mod int ts < int ts" using ts by simp
  then have q: "q < ts" unfolding q_def using ts by linarith
  have km: "k mod ts < ts" using ts by simp
  have c: "mem' ! (b + ts + k) = mem ! (b + ts + k)" "mem' ! (b + k mod ts) = mem ! (b + k mod ts)"
    "mem' ! (b - 1 - k) = mem ! (b - 1 - k)" "mem' ! (b + q) = mem ! (b + q)"
    using k km q b by (intro same; linarith)+
  have p: "mem ! (b + ts + k) = mem ! (b + k mod ts)" "mem ! (b - 1 - k) = mem ! (b + q)"
    using pad k unfolding padded_row_def q_def by blast+
  show "mem' ! (b + ts + k) = mem' ! (b + k mod ts)" using c p by simp
  show "mem' ! (b - 1 - k) = mem' ! (b + nat ((int ts - 1 - int k) mod int ts))"
    using c p unfolding q_def by simp
qed

lemma fillExtra_rows:
  assumes H: "(unat tsz + 8) * 24 < 2 ^ 32"
    and pos: "0 < unat tsz"
    and wm1: "tableSize wm1 = tsz" "length (multiData wm1) = (unat tsz + 8) * 24"
  shows "\<exists>wm2. fillExtra wm1 = Inr wm2
      \<and> tableSize wm2 = tsz \<and> length (multiData wm2) = (unat tsz + 8) * 24
      \<and> (\<forall>m<24. (\<forall>j<unat tsz. multiData wm2 ! (m * (unat tsz + 8) + 4 + j)
                                   = multiData wm1 ! (m * (unat tsz + 8) + 4 + j))
                 \<and> padded_row (multiData wm2) (unat tsz) (m * (unat tsz + 8) + 4))"
proof -
  define ts where "ts = unat tsz"
  define P :: "nat list \<Rightarrow> WavetableMulti \<Rightarrow> bool"
    where "P ds wm \<longleftrightarrow> tableSize wm = tsz \<and> length (multiData wm) = (ts + 8) * 24
      \<and> (\<forall>m<24. \<forall>j<ts. multiData wm ! (m * (ts + 8) + 4 + j) = multiData wm1 ! (m * (ts + 8) + 4 + j))
      \<and> (\<forall>m\<in>set ds. m < 24 \<and> padded_row (multiData wm) ts (m * (ts + 8) + 4))" for ds wm
  have ts: "0 < ts" using pos by (simp add: ts_def)
  have init: "P [] wm1" using wm1 by (simp add: P_def ts_def)
  have step: "\<exists>wm'. fillExtra_body wm m = Inr wm' \<and> P (ds @ [m]) wm'"
    if P: "P ds wm" and mm: "m \<in> set [0 ..< numTables]" for ds m wm
  proof -
    have m: "m < 24" using mm by (simp add: numTables_def N_def)
    have wm: "tableSize wm = tsz" "length (multiData wm) = (unat tsz + 8) * 24"
      using P by (simp_all add: P_def ts_def)
    define b where "b = m * (ts + 8) + 4"
    from fillExtra_body_step [OF H pos m wm]
    obtain wm' where wm': "fillExtra_body wm m = Inr wm'"
      "tableSize wm' = tsz" "length (multiData wm') = (ts + 8) * 24"
      and W1: "\<And>k. k < 4 \<Longrightarrow> multiData wm' ! (b + ts + k) = multiData wm ! (b + k mod ts)"
      and W2: "\<And>k. k < 4 \<Longrightarrow> multiData wm' ! (b - 1 - k)
                  = multiData wm ! (b + nat ((int ts - 1 - int k) mod int ts))"
      and W3: "\<And>p. p < (ts + 8) * 24 \<Longrightarrow> \<not> (m * (ts + 8) \<le> p \<and> p < m * (ts + 8) + 4) \<Longrightarrow>
            \<not> (m * (ts + 8) + 4 + ts \<le> p \<and> p < m * (ts + 8) + 4 + ts + 4) \<Longrightarrow>
            multiData wm' ! p = multiData wm ! p"
      unfolding ts_def b_def by blast
    have other: "multiData wm' ! p = multiData wm ! p"
      if "m' < 24" "m' \<noteq> m" "m' * (ts + 8) \<le> p" "p < m' * (ts + 8) + (ts + 8)" for m' p
    proof (rule W3)
      have "m' * (ts + 8) + (ts + 8) \<le> (ts + 8) * 24" using that(1) by (rule row_in_bounds)
      then show "p < (ts + 8) * 24" using that(4) by linarith
      show "\<not> (m * (ts + 8) \<le> p \<and> p < m * (ts + 8) + 4)"
        using that(2,3,4) by (rule cell_outside(1))
      show "\<not> (m * (ts + 8) + 4 + ts \<le> p \<and> p < m * (ts + 8) + 4 + ts + 4)"
        using that(2,3,4) by (rule cell_outside(2))
    qed
    have own: "multiData wm' ! (b + j) = multiData wm ! (b + j)" if "j < ts" for j
    proof (rule W3)
      have "m * (ts + 8) + (ts + 8) \<le> (ts + 8) * 24" using m by (rule row_in_bounds)
      then show "b + j < (ts + 8) * 24" using that unfolding b_def by linarith
      show "\<not> (m * (ts + 8) \<le> b + j \<and> b + j < m * (ts + 8) + 4)" unfolding b_def by linarith
      show "\<not> (m * (ts + 8) + 4 + ts \<le> b + j \<and> b + j < m * (ts + 8) + 4 + ts + 4)"
        using that unfolding b_def by linarith
    qed
    have data: "multiData wm' ! (m' * (ts + 8) + 4 + j) = multiData wm1 ! (m' * (ts + 8) + 4 + j)"
      if m': "m' < 24" and j: "j < ts" for m' j
    proof -
      have o: "multiData wm ! (m' * (ts + 8) + 4 + j) = multiData wm1 ! (m' * (ts + 8) + 4 + j)"
        using P m' j by (simp add: P_def)
      have "multiData wm' ! (m' * (ts + 8) + 4 + j) = multiData wm ! (m' * (ts + 8) + 4 + j)"
      proof (cases "m' = m")
        case True
        then show ?thesis using own [OF j] by (simp add: b_def)
      next
        case False
        show ?thesis by (rule other [OF m' False]) (use j in linarith)+
      qed
      then show ?thesis using o by simp
    qed
    have new: "padded_row (multiData wm') ts b"
      unfolding padded_row_def
    proof (intro allI impI conjI)
      fix k :: nat assume k: "k < 4"
      define q where "q = nat ((int ts - 1 - int k) mod int ts)"
      have "(int ts - 1 - int k) mod int ts < int ts" using ts by simp
      then have q: "q < ts" unfolding q_def using ts by linarith
      have km: "k mod ts < ts" using ts by simp
      show "multiData wm' ! (b + ts + k) = multiData wm' ! (b + k mod ts)"
        using W1 [OF k] own [OF km] by simp
      show "multiData wm' ! (b - 1 - k) = multiData wm' ! (b + nat ((int ts - 1 - int k) mod int ts))"
        using W2 [OF k] own [OF q] unfolding q_def by simp
    qed
    have old: "padded_row (multiData wm') ts (m' * (ts + 8) + 4)" if m': "m' \<in> set ds" for m'
    proof (cases "m' = m")
      case True
      then show ?thesis using new by (simp add: b_def)
    next
      case False
      have m'24: "m' < 24" and pad: "padded_row (multiData wm) ts (m' * (ts + 8) + 4)"
        using P m' by (auto simp: P_def)
      show ?thesis
      proof (rule padded_row_cong [OF _ ts _ pad])
        show "4 \<le> m' * (ts + 8) + 4" by simp
        fix p assume "m' * (ts + 8) + 4 - 4 \<le> p" "p < m' * (ts + 8) + 4 + ts + 4"
        then show "multiData wm' ! p = multiData wm ! p"
          by (intro other [OF m'24 False]) linarith+
      qed
    qed
    have ds24: "m' < 24" if "m' \<in> set ds" for m' using P that by (auto simp: P_def)
    have "P (ds @ [m]) wm'"
      unfolding P_def using wm'(2,3) data new old m ds24 by (auto simp: b_def)
    then show ?thesis using wm'(1) by blast
  qed
  have "\<exists>wm. for_each [0 ..< numTables] fillExtra_body wm1 = Inr wm \<and> P ([] @ [0 ..< numTables]) wm"
  proof (rule for_each_rule [where P = P])
    show "P [] wm1" by (rule init)
    show "\<exists>wm'. fillExtra_body wm m = Inr wm' \<and> P (ds @ [m]) wm'"
      if "P ds wm" "m \<in> set [0 ..< numTables]" for ds m wm
      using that by (rule step)
  qed
  then obtain wm2 where r: "fillExtra wm1 = Inr wm2" "P [0 ..< numTables] wm2"
    by (auto simp: fillExtra_def)
  have "tableSize wm2 = tsz \<and> length (multiData wm2) = (ts + 8) * 24
      \<and> (\<forall>m<24. (\<forall>j<ts. multiData wm2 ! (m * (ts + 8) + 4 + j) = multiData wm1 ! (m * (ts + 8) + 4 + j))
                 \<and> padded_row (multiData wm2) ts (m * (ts + 8) + 4))"
    using r(2) by (simp add: P_def numTables_def N_def)
  then show ?thesis using r(1) unfolding ts_def by (intro exI [of _ wm2] conjI) simp_all
qed

lemma createForHarmonicProfile_result:
  assumes H: "(unat tsz + 8) * 24 < 2 ^ 32"
    and pos: "0 < unat tsz"
    and alloc: "kiss_fftr_alloc kiss (unat tsz) True"
  shows "\<exists>wm. createForHarmonicProfile kiss hp a tsz rate = Inr wm
      \<and> tableSize wm = tsz \<and> length (multiData wm) = (unat tsz + 8) * 24
      \<and> (\<forall>m<24. (\<forall>j<unat tsz. multiData wm ! (m * (unat tsz + 8) + 4 + j)
                                   = band_table kiss hp a tsz rate m ! j)
                 \<and> padded_row (multiData wm) (unat tsz) (m * (unat tsz + 8) + 4))"
proof -
  from create_rows [OF H alloc, of hp a rate]
  obtain wm1 where wm1:
    "for_each [0 ..< numTables] (createForHarmonicProfile_body kiss hp a tsz rate)
       (allocateStorage WavetableMulti_init tsz) = Inr wm1"
    "tableSize wm1 = tsz" "length (multiData wm1) = (unat tsz + 8) * 24"
    "\<And>m j. m < 24 \<Longrightarrow> j < unat tsz \<Longrightarrow>
        multiData wm1 ! (m * (unat tsz + 8) + 4 + j) = band_table kiss hp a tsz rate m ! j"
    by blast
  from fillExtra_rows [OF H pos wm1(2,3)]
  obtain wm2 where wm2: "fillExtra wm1 = Inr wm2"
    "tableSize wm2 = tsz" "length (multiData wm2) = (unat tsz + 8) * 24"
    "\<And>m j. m < 24 \<Longrightarrow> j < unat tsz \<Longrightarrow>
        multiData wm2 ! (m * (unat tsz + 8) + 4 + j) = multiData wm1 ! (m * (unat tsz + 8) + 4 + j)"
    "\<And>m. m < 24 \<Longrightarrow> padded_row (multiData wm2) (unat tsz) (m * (unat tsz + 8) + 4)"
    by blast
  have run: "createForHarmonicProfile kiss hp a tsz rate = Inr wm2"
    unfolding createForHarmonicProfile_def Let_def by (simp only: wm1(1) wm2(1) sum.case)
  show ?thesis
  proof (intro exI [of _ wm2] conjI allI impI)
    show "createForHarmonicProfile kiss hp a tsz rate = Inr wm2" by (rule run)
    show "tableSize wm2 = tsz" by (rule wm2(2))
    show "length (multiData wm2) = (unat tsz + 8) * 24" by (rule wm2(3))
    show "multiData wm2 ! (m * (unat tsz + 8) + 4 + j) = band_table kiss hp a tsz rate m ! j"
      if "m < 24" "j < unat tsz" for m j
      using wm2(4) [OF that] wm1(4) [OF that] by simp
    show "padded_row (multiData wm2) (unat tsz) (m * (unat tsz + 8) + 4)" if "m < 24" for m
      using that by (rule wm2(5))
  qed
qed

lemma array_at_nat: "p < length a \<Longrightarrow> i = int p \<Longrightarrow> array_at a i = Inr (a ! p)"
  by (simp add: array_at_def)

lemma wrap_padded_rows:
  assumes H: "(unat tsz + 8) * 24 < 2 ^ 32"
    and pos: "0 < unat tsz"
    and wm: "tableSize wm = tsz" "length (multiData wm) = (unat tsz + 8) * 24"
    and pad: "\<And>m. m < 24 \<Longrightarrow> padded_row (multiData wm) (unat tsz) (m * (unat tsz + 8) + 4)"
  shows "wrap_padded wm"
  unfolding wrap_padded_def
proof (intro allI impI)
  fix m k :: nat assume "m < numTables" "k < unat tableExtra"
  then have m: "m < 24" and k: "k < 4" by (simp_all add: numTables_def N_def tableExtra_def)
  define ts where "ts = unat tsz"
  define b where "b = m * (ts + 8) + 4"
  define mem where "mem = multiData wm"
  define q where "q = nat ((int ts - 1 - int k) mod int ts)"
  have ts: "0 < ts" using pos by (simp add: ts_def)
  have "(int ts - 1 - int k) mod int ts < int ts" "0 \<le> (int ts - 1 - int k) mod int ts"
    using ts by simp_all
  then have q: "q < ts" "int q = (int ts - 1 - int k) mod int ts" unfolding q_def by linarith+
  have km: "k mod ts < ts" using ts by simp
  have "m * (ts + 8) + (ts + 8) \<le> (ts + 8) * 24" using m by (rule row_in_bounds)
  then have fit: "b + ts + 4 \<le> length mem" by (simp add: b_def mem_def wm(2) ts_def)
  have ptr: "getTablePointer wm (of_nat m) = int b"
    using getTablePointer_eq [OF H m wm(1)] by (simp add: b_def ts_def)
  have ut: "uint (tableSize wm) = int ts" by (simp only: wm(1) ts_def uint_nat)
  have p: "mem ! (b + ts + k) = mem ! (b + k mod ts)" "mem ! (b - 1 - k) = mem ! (b + q)"
    using pad [OF m] k unfolding padded_row_def q_def b_def ts_def mem_def by blast+
  have c1: "row_cell wm m (int ts + int k) = Inr (mem ! (b + ts + k))"
    unfolding row_cell_def ptr mem_def [symmetric]
    by (rule array_at_nat) (use fit k in linarith)+
  have c2: "row_cell wm m (int k mod int ts) = Inr (mem ! (b + k mod ts))"
    unfolding row_cell_def ptr mem_def [symmetric]
  proof (rule array_at_nat)
    show "b + k mod ts < length mem" using fit km by linarith
    show "int b + int k mod int ts = int (b + k mod ts)" by (simp only: of_nat_add of_nat_mod)
  qed
  have c3: "row_cell wm m (- 1 - int k) = Inr (mem ! (b - 1 - k))"
    unfolding row_cell_def ptr mem_def [symmetric]
  proof (rule array_at_nat)
    show "b - 1 - k < length mem" using fit by linarith
    show "int b + (- 1 - int k) = int (b - 1 - k)" using k unfolding b_def by linarith
  qed
  have c4: "row_cell wm m ((int ts - 1 - int k) mod int ts) = Inr (mem ! (b + q))"
    unfolding row_cell_def ptr mem_def [symmetric]
  proof (rule array_at_nat)
    show "b + q < length mem" using fit q(1) by linarith
    show "int b + (int ts - 1 - int k) mod int ts = int (b + q)" using q(2) by linarith
  qed
  show "\<exists>v w. row_cell wm m (uint (tableSize wm) + int k) = Inr v
       \<and> row_cell wm m (int k mod uint (tableSize wm)) = Inr v
       \<and> row_cell wm m (- 1 - int k) = Inr w
       \<and> row_cell wm m ((uint (tableSize wm) - 1 - int k) mod uint (tableSize wm)) = Inr w"
    unfolding ut
  proof (intro exI conjI)
    show "row_cell wm m (int ts + int k) = Inr (mem ! (b + ts + k))" by (rule c1)
    show "row_cell wm m (int k mod int ts) = Inr (mem ! (b + ts + k))" using c2 p(1) by simp
    show "row_cell wm m (- 1 - int k) = Inr (mem ! (b - 1 - k))" by (rule c3)
    show "row_cell wm m ((int ts - 1 - int k) mod int ts) = Inr (mem ! (b - 1 - k))"
      using c4 p(2) by simp
  qed
qed

lemma getTable_rows:
  assumes H: "(unat tsz + 8) * 24 < 2 ^ 32"
    and m: "m < 24"
    and wm: "tableSize wm = tsz" "length (multiData wm) = (unat tsz + 8) * 24"
    and row: "\<And>j. j < unat tsz \<Longrightarrow> multiData wm ! (m * (unat tsz + 8) + 4 + j) = T ! j"
    and lT: "length T = unat tsz"
  shows "getTable wm (of_nat m) = Inr T"
proof -
  define b where "b = m * (unat tsz + 8) + 4"
  have ptr: "getTablePointer wm (of_nat m) = int b"
    using getTablePointer_eq [OF H m wm(1)] by (simp add: b_def)
  have "m * (unat tsz + 8) + (unat tsz + 8) \<le> (unat tsz + 8) * 24" using m by (rule row_in_bounds)
  then have "b + unat tsz \<le> length (multiData wm)" by (simp add: b_def wm(2))
  then have fit: "int b + int (unat tsz) \<le> int (length (multiData wm))" by linarith
  have nb: "nat (int b) = b" by simp
  have "read_span (multiData wm) (int b) (unat tsz)
      = Inr (map (\<lambda>j. multiData wm ! (nat (int b) + j)) [0 ..< unat tsz])"
    by (rule read_span_spec [OF _ fit]) simp
  also have "map (\<lambda>j. multiData wm ! (nat (int b) + j)) [0 ..< unat tsz] = T"
    unfolding nb by (rule nth_equalityI) (use row lT in \<open>simp_all add: b_def\<close>)
  finally show ?thesis by (simp only: getTable_def ptr wm(1))
qed

text \<open>
  What a run that returns a multisample tells: every loop body succeeded, the storage kept
  its length, and every access was inside it, so that the storage size cannot have wrapped
  around.
\<close>

lemma write_span_Inr:
  assumes "write_span mem p xs = Inr mem'"
  shows "length mem' = length mem"
  using assms by (auto simp: write_span_def split: if_splits)

lemma fill_right_Inr:
  assumes "fill_right n beg endp src dst mem = Inr mem'"
  shows "length mem' = length mem \<and> (0 < n \<longrightarrow> 0 \<le> dst \<and> dst + int n \<le> int (length mem))"
  using assms
proof (induction n arbitrary: src dst mem)
  case 0
  then show ?case by simp
next
  case (Suc n)
  from Suc.prems obtain v mem1 where a: "array_at mem src = Inr v" "store_at mem dst v = Inr mem1"
    "fill_right n beg endp (if src + 1 \<noteq> endp then src + 1 else beg) (dst + 1) mem1 = Inr mem'"
    by (auto split: sum.splits)
  have d: "0 \<le> dst" "dst < int (length mem)" "length mem1 = length mem"
    using a(2) by (auto simp: store_at_def split: if_splits)
  from Suc.IH [OF a(3)] have "length mem' = length mem1"
    "0 < n \<longrightarrow> dst + 1 + int n \<le> int (length mem1)" by simp_all
  then show ?case using d by (cases "n = 0") simp_all
qed

lemma fill_left_Inr:
  assumes "fill_left n beg endp src dst mem = Inr mem'"
  shows "length mem' = length mem"
  using assms
proof (induction n arbitrary: src dst mem)
  case 0
  then show ?case by simp
next
  case (Suc n)
  from Suc.prems obtain v mem1 where a: "array_at mem src = Inr v" "store_at mem dst v = Inr mem1"
    "fill_left n beg endp (if src \<noteq> beg then src - 1 else endp - 1) (dst - 1) mem1 = Inr mem'"
    by (auto split: sum.splits)
  have "length mem1 = length mem"
    using a(2) by (auto simp: store_at_def split: if_splits)
  then show ?case using Suc.IH [OF a(3)] by simp
qed

lemma create_body_Inr:
  assumes "createForHarmonicProfile_body kiss hp a tsz rate wm m = Inr wm'"
  shows "tableSize wm' = tableSize wm \<and> length (multiData wm') = length (multiData wm)
       \<and> kiss_fftr_alloc kiss (unat tsz) True"
proof -
  from assms obtain rng mem where g: "getRangeForIndex (int m) = Inr rng"
    "generate kiss hp (multiData wm) (getTablePointer wm (of_nat m)) (unat tsz) a
       (Finite ((0.5 * rate / real (unat tsz)) / maxFrequency rng)) = Inr mem"
    "wm' = wm\<lparr>multiData := mem\<rparr>"
    by (auto simp: createForHarmonicProfile_body_def Let_def split: sum.splits)
  have al: "kiss_fftr_alloc kiss (unat tsz) True"
    using g(2) by (auto simp: generate_def split: if_splits)
  then have "length mem = length (multiData wm)"
    using g(2) by (auto simp: generate_def dest: write_span_Inr)
  then show ?thesis using g(3) al by simp
qed

lemma fillExtra_body_Inr:
  assumes "fillExtra_body wm m = Inr wm'"
  shows "tableSize wm' = tableSize wm \<and> length (multiData wm') = length (multiData wm)
       \<and> getTablePointer wm (of_nat m) + uint (tableSize wm) + 4 \<le> int (length (multiData wm))"
proof -
  define beg where "beg = getTablePointer wm (of_nat m)"
  define endp where "endp = beg + uint (tableSize wm)"
  from assms obtain mem1 mem2 where f:
    "fill_right (unat tableExtra) beg endp beg endp (multiData wm) = Inr mem1"
    "fill_left (unat tableExtra) beg endp (endp - 1) (beg - 1) mem1 = Inr mem2"
    "wm' = wm\<lparr>multiData := mem2\<rparr>"
    by (auto simp: fillExtra_body_def Let_def beg_def endp_def split: sum.splits)
  have e4: "unat tableExtra = 4" by (simp add: tableExtra_def)
  from fill_right_Inr [OF f(1)] have r: "length mem1 = length (multiData wm)"
    "endp + 4 \<le> int (length (multiData wm))" by (simp_all add: e4)
  from fill_left_Inr [OF f(2)] have "length mem2 = length mem1" .
  then show ?thesis using r f(3) by (simp add: endp_def beg_def)
qed

lemma for_each_Inr:
  assumes "for_each ms body s = Inr s'" "Q s"
    and "\<And>s m s1. Q s \<Longrightarrow> m \<in> set ms \<Longrightarrow> body s m = Inr s1 \<Longrightarrow> Q s1 \<and> R m"
  shows "Q s' \<and> (\<forall>m\<in>set ms. R m)"
  using assms
proof (induction ms arbitrary: s)
  case Nil
  then show ?case by simp
next
  case (Cons m ms)
  from Cons.prems(1) obtain s1 where s1: "body s m = Inr s1" "for_each ms body s1 = Inr s'"
    by (auto split: sum.splits)
  from Cons.prems(3) [OF Cons.prems(2) _ s1(1)] have q: "Q s1" "R m" by simp_all
  have "Q s' \<and> (\<forall>m\<in>set ms. R m)"
    by (rule Cons.IH [OF s1(2) q(1)]) (use Cons.prems(3) in auto)
  then show ?case using q(2) by simp
qed

lemma returned_no_wrap:
  assumes ret: "createForHarmonicProfile kiss hp a tsz rate = Inr wm"
    and pos: "0 < unat tsz"
  shows "(unat tsz + 8) * 24 < 2 ^ 32 \<and> kiss_fftr_alloc kiss (unat tsz) True"
proof -
  define wm0 where "wm0 = allocateStorage WavetableMulti_init tsz"
  define sw :: "32 word" where "sw = tsz + 2 * tableExtra"
  define A where "A = unat (sw * of_nat numTables)"
  define ts where "ts = unat tsz"
  define Q :: "WavetableMulti \<Rightarrow> bool"
    where "Q w \<longleftrightarrow> tableSize w = tsz \<and> length (multiData w) = A" for w
  from ret obtain wm1 where l1:
    "for_each [0 ..< numTables] (createForHarmonicProfile_body kiss hp a tsz rate) wm0 = Inr wm1"
    and l2: "for_each [0 ..< numTables] fillExtra_body wm1 = Inr wm"
    by (auto simp: createForHarmonicProfile_def Let_def wm0_def fillExtra_def split: sum.splits)
  have Q0: "Q wm0"
    by (simp add: Q_def wm0_def allocateStorage_def WavetableMulti_init_def resize_def A_def sw_def)
  have g: "Q wm1 \<and> (\<forall>m\<in>set [0 ..< numTables]. kiss_fftr_alloc kiss (unat tsz) True)"
  proof (rule for_each_Inr [where Q = Q and R = "\<lambda>m. kiss_fftr_alloc kiss (unat tsz) True", OF l1])
    show "Q wm0" by (rule Q0)
    fix s m s1
    assume "Q s" "createForHarmonicProfile_body kiss hp a tsz rate s m = Inr s1"
    then show "Q s1 \<and> kiss_fftr_alloc kiss (unat tsz) True"
      using create_body_Inr [of kiss hp a tsz rate s m s1] by (simp add: Q_def)
  qed
  have "0 \<in> set [0 ..< numTables]" by (simp add: numTables_def N_def)
  then have al: "kiss_fftr_alloc kiss (unat tsz) True" using g by blast
  have f: "Q wm \<and> (\<forall>m\<in>set [0 ..< numTables]. uint (of_nat m * sw) + int ts + 8 \<le> int A)"
  proof (rule for_each_Inr [where Q = Q and R = "\<lambda>m. uint (of_nat m * sw) + int ts + 8 \<le> int A", OF l2])
    show "Q wm1" using g by simp
    fix s m s1
    assume q: "Q s" and b: "fillExtra_body s m = Inr s1"
    have e4: "uint tableExtra = 4" by (simp add: tableExtra_def)
    have ut: "uint tsz = int ts" by (simp only: ts_def uint_nat)
    from fillExtra_body_Inr [OF b] q
    have "tableSize s1 = tsz" "length (multiData s1) = A"
      "getTablePointer s (of_nat m) + uint tsz + 4 \<le> int A"
      by (simp_all add: Q_def)
    moreover have "getTablePointer s (of_nat m) = uint (of_nat m * sw) + 4"
      using q by (simp add: getTablePointer_def Q_def sw_def e4)
    ultimately show "Q s1 \<and> uint (of_nat m * sw) + int ts + 8 \<le> int A"
      unfolding ut by (simp add: Q_def)
  qed
  then have R: "uint (of_nat m * sw) + int ts + 8 \<le> int A" if "m < 24" for m
    using that by (simp add: numTables_def N_def)
  have A: "A < 2 ^ 32" using unsigned_less [of "sw * of_nat numTables", where 'a = nat]
    by (simp add: A_def)
  have "0 \<le> uint (of_nat 0 * sw)" by simp
  then have s32: "ts + 8 < 2 ^ 32" using R [of 0] A by linarith
  have e: "unat (2 * tableExtra) = 8" by (simp add: tableExtra_def)
  have "unat tsz + unat (2 * tableExtra) < 2 ^ LENGTH(32)" using s32 by (simp add: e ts_def)
  then have us: "unat sw = ts + 8"
    unfolding sw_def by (simp only: unat_add_lem [THEN iffD1] e ts_def)
  have step: "m * (ts + 8) \<le> A" if "m \<le> 24" for m
    using that
  proof (induction m)
    case 0
    then show ?case by simp
  next
    case (Suc m)
    then have m: "m < 24" and ih: "m * (ts + 8) \<le> A" by simp_all
    have um: "unat (of_nat m :: 32 word) = m" using m by (simp add: unat_of_nat)
    have "unat (of_nat m :: 32 word) * unat sw < 2 ^ LENGTH(32)"
      using ih A by (simp only: um us) simp
    then have "unat (of_nat m * sw) = m * (ts + 8)"
      by (simp only: unat_mult_lem [THEN iffD1] um us)
    then have "uint (of_nat m * sw) = int (m * (ts + 8))" by (simp only: uint_nat)
    then have "int (m * (ts + 8)) + int ts + 8 \<le> int A" using R [OF m] by simp
    then have "m * (ts + 8) + (ts + 8) \<le> A" by linarith
    then show ?case by simp
  qed
  have "24 * (ts + 8) \<le> A" by (rule step) simp
  then have "(ts + 8) * 24 < 2 ^ 32" using A by simp
  then show ?thesis using al by (simp add: ts_def)
qed

lemma returned_result:
  assumes ret: "createForHarmonicProfile kiss hp a tsz rate = Inr wm"
    and pos: "0 < unat tsz"
  shows "(unat tsz + 8) * 24 < 2 ^ 32"
    and "tableSize wm = tsz"
    and "length (multiData wm) = (unat tsz + 8) * 24"
    and "\<And>m j. m < 24 \<Longrightarrow> j < unat tsz \<Longrightarrow>
          multiData wm ! (m * (unat tsz + 8) + 4 + j) = band_table kiss hp a tsz rate m ! j"
    and "\<And>m. m < 24 \<Longrightarrow> padded_row (multiData wm) (unat tsz) (m * (unat tsz + 8) + 4)"
proof -
  from returned_no_wrap [OF ret pos]
  have H: "(unat tsz + 8) * 24 < 2 ^ 32" and al: "kiss_fftr_alloc kiss (unat tsz) True" by simp_all
  from createForHarmonicProfile_result [OF H pos al, of hp a rate] ret
  have r: "tableSize wm = tsz \<and> length (multiData wm) = (unat tsz + 8) * 24
      \<and> (\<forall>m<24. (\<forall>j<unat tsz. multiData wm ! (m * (unat tsz + 8) + 4 + j)
                                   = band_table kiss hp a tsz rate m ! j)
                 \<and> padded_row (multiData wm) (unat tsz) (m * (unat tsz + 8) + 4))"
    by auto
  show "(unat tsz + 8) * 24 < 2 ^ 32" by (rule H)
  show "tableSize wm = tsz" "length (multiData wm) = (unat tsz + 8) * 24" using r by simp_all
  show "multiData wm ! (m * (unat tsz + 8) + 4 + j) = band_table kiss hp a tsz rate m ! j"
    if "m < 24" "j < unat tsz" for m j using r that by blast
  show "padded_row (multiData wm) (unat tsz) (m * (unat tsz + 8) + 4)" if "m < 24" for m
    using r that by blast
qed

lemma scale_loop_spec:
  assumes "length spec = n"
  shows "length (scale_loop k n i spec) = n
       \<and> (\<forall>j<n. scale_loop k n i spec ! j = (if i \<le> j then spec ! j * k else spec ! j))"
  using assms
proof (induction k n i spec rule: scale_loop.induct)
  case (1 k specSize i spec)
  show ?case
  proof (cases "i < specSize")
    case False
    then have "scale_loop k specSize i spec = spec" by (subst scale_loop.simps) simp
    then show ?thesis using False "1.prems" by auto
  next
    case True
    have eq: "scale_loop k specSize i spec = scale_loop k specSize (i + 1) (spec[i := spec ! i * k])"
      using True by (subst scale_loop.simps) simp
    have len: "length (spec[i := spec ! i * k]) = specSize" using "1.prems" by simp
    note IH = "1.IH" [OF True len]
    have "scale_loop k specSize (i + 1) (spec[i := spec ! i * k]) ! j
        = (if i \<le> j then spec ! j * k else spec ! j)" if j: "j < specSize" for j
    proof (cases "j = i")
      case True
      then show ?thesis using IH j "1.prems" by simp
    next
      case False
      then have "i + 1 \<le> j \<longleftrightarrow> i \<le> j" by auto
      then show ?thesis using IH j False by simp
    qed
    then show ?thesis using IH eq by simp
  qed
qed

lemma scale_loop_map:
  "scale_loop k (length spec) 0 spec = map (\<lambda>z. z * k) spec"
  by (rule nth_equalityI) (use scale_loop_spec [of spec "length spec" k 0] in simp_all)

lemma no_wrap:
  "(unat tsz + 2 * unat tableExtra) * numTables < 2 ^ 32 \<longleftrightarrow> (unat tsz + 8) * 24 < 2 ^ 32"
  by (simp add: tableExtra_def numTables_def N_def)

section \<open>Facts about the rows of a returned multisample and the stand-in transform\<close>

lemma returned_rows:
  assumes ret: "createForHarmonicProfile kiss hp a tsz rate = Inr wm"
    and pos: "0 < unat tsz"
    and m: "m < 24"
  shows "getTable wm (of_nat m) = Inr (band_table kiss hp a tsz rate m)"
proof -
  note r = returned_result [OF ret pos]
  show ?thesis
    by (rule getTable_rows [OF r(1) m r(2,3)]) (simp_all add: r(4) [OF m] length_band_table)
qed

lemma getTable_cell:
  assumes "getTable wm (of_nat m) = Inr xs" "j < length xs"
  shows "row_cell wm m (int j) = Inr (xs ! j)"
proof -
  define mem where "mem = multiData wm"
  define p where "p = getTablePointer wm (of_nat m)"
  define n where "n = unat (tableSize wm)"
  have r: "read_span mem p n = Inr xs"
    using assms(1) by (simp add: getTable_def mem_def p_def n_def)
  have n: "n \<noteq> 0" using r assms(2) by (auto simp: read_span_def split: if_splits)
  then have b: "0 \<le> p" "p + int n \<le> int (length mem)" and xs: "xs = take n (drop (nat p) mem)"
    using r by (auto simp: read_span_def split: if_splits)
  have j: "j < n" "nat p + j < length mem" using assms(2) xs by auto
  then have "xs ! j = mem ! (nat p + j)" by (simp add: xs)
  moreover have "nat (p + int j) = nat p + j" using b(1) by (simp add: nat_add_distrib)
  moreover have "0 \<le> p + int j" "p + int j < int (length mem)" using b j by linarith+
  ultimately show ?thesis
    by (simp add: row_cell_def array_at_def mem_def [symmetric] p_def [symmetric])
qed

lemma list_of_length_2: "length xs = 2 \<Longrightarrow> xs = [xs ! 0, xs ! 1]"
  by (auto simp: length_Suc_conv numeral_2_eq_2)


lemma sample_spec_2:
  assumes "1 / 2 \<le> c"
  shows "generate_spec hp 2 1 (Finite c) = [0, polar (1 / 2) (pi / 2) * hp 1]"
proof -
  define s where "s = generate_spec hp 2 1 (Finite c)"
  note g = generate_spec_nth [of hp 2 1 "Finite c", folded s_def]
  have "length s = 2" using g by simp
  moreover have "s ! 0 = 0" using g by simp
  moreover have "s ! 1 = polar (1 / 2) (pi / 2) * hp 1"
    using g assms by (simp add: normalized_frequency_values_Suc greater_than_def)
  ultimately show ?thesis
    unfolding s_def [symmetric] using list_of_length_2 [of s] by simp
qed


lemma sample_table_2:
  assumes "1 / 2 \<le> c"
  shows "generate_table sample_fft (\<lambda>i. 1 / of_nat i) 2 1 (Finite c) = [1 / 2, 1]"
proof -
  have u: "[0 ..< 2] = [0, 1]" by (simp add: upt_rec)
  show ?thesis
    by (simp add: generate_table_def sample_spec_2 [OF assms] u sample_fft_def polar_def)
qed


lemma sample_audio_profile:
  "createFromAudioData sample_fft [0, 1, 0, - 1] a tsz rate =
     createForHarmonicProfile sample_fft
       (TabulatedHarmonicProfile [0, polar (1 / 2) (- pi / 2), 0]) a tsz rate"
proof -
  have u: "[0 ..< 3] = [0, 1, 2]" by (simp add: upt_rec)
  have "scale_loop k (Suc (Suc (Suc 0))) 0 [0, 1, 0] = [0, k, 0]" for k :: complex
    using scale_loop_map [of k "[0, 1, 0]"] by simp
  then show ?thesis
    by (simp add: createFromAudioData_def sample_fft_def u)
qed

lemma sample_audio_table_2:
  assumes "1 / 2 \<le> c"
  shows "generate_table sample_fft (TabulatedHarmonicProfile [0, polar (1 / 2) (- pi / 2), 0])
           2 1 (Finite c) = [1 / 4, 1 / 2]"
proof -
  have u: "[0 ..< 2] = [0, 1]" by (simp add: upt_rec)
  show ?thesis
    by (simp add: generate_table_def sample_spec_2 [OF assms] u sample_fft_def polar_def
        TabulatedHarmonicProfile_def)
qed

lemma band_0_cutoff:
  assumes "27 \<le> x"
  shows "1 / 2 \<le> x / (exp LogB / K)"
proof -
  define y where "y = exp LogB / K"
  have y: "0 < y" "y < 27" using K_pos band_0_max by (simp_all add: y_def)
  then have "1 / 2 * y \<le> x" using assms by linarith
  then have "1 / 2 \<le> x / y" using y(1) by (simp only: pos_le_divide_eq)
  then show ?thesis by (simp only: y_def)
qed

section \<open>Claims about MipmapRange\<close>

text \<open>
  C4. \<^verbatim>\<open>getIndexForFrequency(F1)\<close> is exactly 0 and \<^verbatim>\<open>getIndexForFrequency(FN)\<close> is
  exactly \<open>N - 1\<close>, although the lookup interpolates in the 1024-entry table: at \<open>F1\<close> the
  position is 0 and the fraction 0, so the result is the first entry, which is 0; at \<open>FN\<close>
  the position is 1023, both indices are 1023 and the result is the last entry, which the
  table builder sets to \<open>N - 1\<close>. (The lemmas \<open>binary32_position_at_FN\<close> and
  \<open>binary32_K_times_F1\<close> above show that rounding does not move the two positions.)
\<close>

theorem getIndexForFrequency_boundary_exact:
  "getIndexForFrequency F1 = Inr 0 \<and> getIndexForFrequency FN = Inr (real (N - 1))"
proof
  show "getIndexForFrequency F1 = Inr 0"
    using FrequencyToIndex_nth [of 0] getExact_F1
    by (simp add: getIndexForFrequency_def Let_def FrequencyToIndex_size_def clamp_def
        static_cast_int_def array_at_def length_FrequencyToIndex)
  show "getIndexForFrequency FN = Inr (real (N - 1))"
    using FrequencyToIndex_last
    by (simp add: getIndexForFrequency_def Let_def FrequencyToIndex_size_def clamp_def
        static_cast_int_def array_at_def length_FrequencyToIndex FN_def F1_def)
qed




text \<open>
  C6. The \<open>N + 1\<close> band boundaries are sorted in non-decreasing order; for every \<open>i\<close> in
  \<open>[0, N - 2]\<close> the ranges \<open>i\<close> and \<open>i + 1\<close> are two consecutive boundaries each, so that range
  \<open>i\<close> ends where range \<open>i + 1\<close> starts; and the last range ends at 22050.
\<close>

theorem band_boundaries_contiguous_monotonic:
  "sorted IndexToStartFrequency \<and> length IndexToStartFrequency = N + 1
   \<and> (\<forall>i. 0 \<le> i \<and> i \<le> int N - 2 \<longrightarrow>
        (\<exists>r s. getRangeForIndex i = Inr r \<and> getRangeForIndex (i + 1) = Inr s
           \<and> minFrequency r = IndexToStartFrequency ! nat i
           \<and> maxFrequency r = IndexToStartFrequency ! (nat i + 1)
           \<and> maxFrequency r = minFrequency s \<and> minFrequency r \<le> maxFrequency r))
   \<and> (\<exists>r. getRangeForIndex (int N - 1) = Inr r \<and> maxFrequency r = 22050)"
proof -
  have a: "\<exists>r s. getRangeForIndex i = Inr r \<and> getRangeForIndex (i + 1) = Inr s
           \<and> minFrequency r = IndexToStartFrequency ! nat i
           \<and> maxFrequency r = IndexToStartFrequency ! (nat i + 1)
           \<and> maxFrequency r = minFrequency s \<and> minFrequency r \<le> maxFrequency r"
    if "0 \<le> i \<and> i \<le> int N - 2" for i
  proof -
    have c: "clamp i 0 23 = i" "clamp (i + 1) 0 23 = i + 1"
      using that by (simp_all add: clamp_def N_def)
    have n: "nat (i + 1) = nat i + 1" using that by (simp add: nat_add_distrib)
    have "nat i + 1 \<le> 24" using that unfolding N_def by linarith
    then have "IndexToStartFrequency ! nat i \<le> IndexToStartFrequency ! (nat i + 1)"
      by (intro IndexToStartFrequency_mono) simp_all
    then show ?thesis by (simp add: getRangeForIndex_eq c n)
  qed
  have b: "\<exists>r. getRangeForIndex (int N - 1) = Inr r \<and> maxFrequency r = 22050"
    by (simp add: getRangeForIndex_eq N_def clamp_def IndexToStartFrequency_last)
  show ?thesis
    using a b sorted_IndexToStartFrequency by (simp add: length_IndexToStartFrequency N_def)
qed

theorem band_boundaries_contiguous_monotonic_witness:
  "\<exists>r s. getRangeForIndex 5 = Inr r \<and> getRangeForIndex 6 = Inr s
     \<and> maxFrequency r = minFrequency s \<and> minFrequency r \<le> maxFrequency r"
proof -
  have "(0::int) \<le> 5 \<and> 5 \<le> int N - 2" by (simp add: N_def)
  then have "\<exists>r s. getRangeForIndex 5 = Inr r \<and> getRangeForIndex (5 + 1) = Inr s
           \<and> minFrequency r = IndexToStartFrequency ! nat 5
           \<and> maxFrequency r = IndexToStartFrequency ! (nat 5 + 1)
           \<and> maxFrequency r = minFrequency s \<and> minFrequency r \<le> maxFrequency r"
    using band_boundaries_contiguous_monotonic by blast
  then show ?thesis by auto
qed



section \<open>Claims about HarmonicProfile and WavetableMulti\<close>

text \<open>
  C1, as the claim states it, fails: the loop does not compare the quotient \<open>i / S\<close> with
  the cutoff but the \<^verbatim>\<open>double\<close> product \<^verbatim>\<open>index * (1.0 / size)\<close>, which is rounded twice.
  For \<open>S = 6\<close> and the cutoff \<^verbatim>\<open>1.0 / 6\<close> (the \<^verbatim>\<open>double\<close> \<open>6004799503160661 / 2 ^ 55\<close>,
  just below \<open>1 / 6\<close>) the normalized frequency \<open>1 / 6\<close> of harmonic 1 exceeds the cutoff,
  yet the product equals the cutoff and the harmonic is placed. For \<open>S = 10\<close> and the
  cutoff \<^verbatim>\<open>0.3\<close> (the \<^verbatim>\<open>double\<close> \<open>5404319552844595 / 2 ^ 54\<close>) the \<^verbatim>\<open>double\<close> quotient
  \<^verbatim>\<open>3.0 / 10\<close> is the cutoff itself, yet the product is the next \<^verbatim>\<open>double\<close> above it and
  harmonic 3 is omitted. So neither the exact quotient nor the rounded one decides what
  the loop keeps.
\<close>

theorem generate_compares_rounded_product:
  "6004799503160661 / 2 ^ 55 < (1 / 6 :: real)
   \<and> generate_spec (TabulatedHarmonicProfile [0, 1, 1, 1]) 6 1
         (Finite (6004799503160661 / 2 ^ 55)) ! 1 = polar (1 * 0.5) (pi / 2) * 1
   \<and> polar (1 * 0.5) (pi / 2) * 1 \<noteq> 0
   \<and> binary64 (3 / 10) = 5404319552844595 / 2 ^ 54
   \<and> generate_spec (TabulatedHarmonicProfile [0, 1, 1, 1, 1, 1]) 10 1
         (Finite (5404319552844595 / 2 ^ 54)) ! 3 = 0
   \<and> TabulatedHarmonicProfile [0, 1, 1, 1, 1, 1] 3 \<noteq> 0"
proof -
  have "generate_spec (TabulatedHarmonicProfile [0, 1, 1, 1]) 6 1
         (Finite (6004799503160661 / 2 ^ 55)) ! 1 = polar (1 * 0.5) (pi / 2) * 1"
    using generate_spec_nth [of "TabulatedHarmonicProfile [0, 1, 1, 1]" 6 1
        "Finite (6004799503160661 / 2 ^ 55)"]
    by (simp add: normalized_frequency_values_Suc greater_than_def TabulatedHarmonicProfile_def)
  moreover have "generate_spec (TabulatedHarmonicProfile [0, 1, 1, 1, 1, 1]) 10 1
         (Finite (5404319552844595 / 2 ^ 54)) ! 3 = 0"
    using generate_spec_nth [of "TabulatedHarmonicProfile [0, 1, 1, 1, 1, 1]" 10 1
        "Finite (5404319552844595 / 2 ^ 54)"]
    by (simp add: normalized_frequency_values greater_than_def)
  moreover have "polar (1 * 0.5) (pi / 2) * 1 \<noteq> 0"
    by (simp add: polar_def rcis_def)
  moreover have "binary64 (3 / 10) = 5404319552844595 / 2 ^ 54"
    by (rule binary64_values)
  ultimately show ?thesis by (simp add: TabulatedHarmonicProfile_def)
qed

text \<open>
  C1, amended. For every table size \<open>S\<close>, amplitude \<open>a\<close> and cutoff \<open>c\<close> (an infinity or NaN
  included), the spectrum that \<^verbatim>\<open>generate\<close> hands to the inverse transform has
  \<open>S div 2 + 1\<close> bins, and for every harmonic index \<open>i\<close> in \<open>[1, S div 2]\<close>: the bin holds the
  harmonic's coefficient (scaled by \<open>polar (a * 0.5) (pi / 2)\<close>) unless the \<^verbatim>\<open>double\<close>
  product \<^verbatim>\<open>i * (1.0 / S)\<close> compares greater than \<open>c\<close>, and then the bin is zero. When the
  product of an index compares greater than \<open>c\<close>, so does the product of every later index:
  the bins that stay zero are the first such index and all after it. (A NaN cutoff never
  compares greater, and every harmonic is placed.) The table is the inverse transform of
  that spectrum, written to the span, unless the allocation of the transform fails.
\<close>

theorem generate_spectrum_cutoff:
  "length (generate_spec hp S a c) = S div 2 + 1
   \<and> (\<forall>i. 1 \<le> i \<and> i \<le> S div 2 \<longrightarrow>
         generate_spec hp S a c ! i =
           (if greater_than (normalized_frequency i S) c then 0
            else polar (a * 0.5) (pi / 2) * hp i))
   \<and> (\<forall>i j. i \<le> j \<and> greater_than (normalized_frequency i S) c \<longrightarrow>
         greater_than (normalized_frequency j S) c)
   \<and> generate kiss hp mem ptr S a c =
       (if kiss_fftr_alloc kiss S True
        then write_span mem ptr (map (kiss_fftri kiss S (generate_spec hp S a c)) [0 ..< S])
        else Inl BadAlloc)"
proof -
  have "greater_than (normalized_frequency j S) c"
    if "i \<le> j \<and> greater_than (normalized_frequency i S) c" for i j
    using that normalized_frequency_mono [of i j S] greater_than_mono by blast
  then show ?thesis
    using generate_spec_nth [of hp S a c]
    by (simp add: generate_def generate_table_def)
qed

theorem generate_spectrum_cutoff_witness:
  "generate_spec (\<lambda>i. 1 / of_nat i) 8 1 (Finite 0.3) ! 2 = polar (1 * 0.5) (pi / 2) * (1 / 2)
   \<and> generate_spec (\<lambda>i. 1 / of_nat i) 8 1 (Finite 0.3) ! 3 = 0
   \<and> generate_spec (\<lambda>i. 1 / of_nat i) 8 1 (Finite 0.3) ! 4 = 0
   \<and> generate_spec (\<lambda>i. 1 / of_nat i) 8 1 NaN ! 4 = polar (1 * 0.5) (pi / 2) * (1 / 4)"
proof -
  note t = generate_spectrum_cutoff [of "\<lambda>i. 1 / of_nat i" 8 1 "Finite 0.3",
      THEN conjunct2, THEN conjunct1]
  note u = generate_spectrum_cutoff [of "\<lambda>i. 1 / of_nat i" 8 1 "Finite 0.3",
      THEN conjunct2, THEN conjunct2, THEN conjunct1]
  note v = generate_spectrum_cutoff [of "\<lambda>i. 1 / of_nat i" 8 1 NaN,
      THEN conjunct2, THEN conjunct1]
  have g3: "greater_than (normalized_frequency 3 8) (Finite 0.3)"
    by (simp add: normalized_frequency_values greater_than_def)
  then have g4: "greater_than (normalized_frequency 4 8) (Finite 0.3)"
    using u [THEN spec, of 3, THEN spec, of 4] by simp
  have "generate_spec (\<lambda>i. 1 / of_nat i) 8 1 (Finite 0.3) ! 2 = polar (1 * 0.5) (pi / 2) * (1 / 2)"
    using t [THEN spec, of 2] by (simp add: normalized_frequency_values greater_than_def)
  moreover have "generate_spec (\<lambda>i. 1 / of_nat i) 8 1 (Finite 0.3) ! 3 = 0"
    using t [THEN spec, of 3] g3 by simp
  moreover have "generate_spec (\<lambda>i. 1 / of_nat i) 8 1 (Finite 0.3) ! 4 = 0"
    using t [THEN spec, of 4] g4 by simp
  moreover have "generate_spec (\<lambda>i. 1 / of_nat i) 8 1 NaN ! 4 = polar (1 * 0.5) (pi / 2) * (1 / 4)"
    using v [THEN spec, of 4] by (simp add: greater_than_def)
  ultimately show ?thesis by simp
qed



text \<open>
  C3. Let the table size be positive. Every multisample that
  \<^verbatim>\<open>createForHarmonicProfile\<close> or \<^verbatim>\<open>createFromAudioData\<close> returns is wrap-padded: for every
  row and every \<open>k\<close> below \<^verbatim>\<open>_tableExtra\<close>, \<open>row[tableSize + k] = row[k mod tableSize]\<close> and
  \<open>row[-1 - k] = row[(tableSize - 1 - k) mod tableSize]\<close>, all four elements lying inside
  the storage. Both functions do return one when the storage size does not wrap around in
  32 bits and the allocations of the transforms succeed.
\<close>

theorem wrap_padding_invariant:
  assumes "0 < unat tsz"
  shows "(createForHarmonicProfile kiss hp amplitude tsz refSampleRate = Inr wm \<longrightarrow>
            tableSize wm = tsz \<and> wrap_padded wm)
     \<and> (createFromAudioData kiss audioData amplitude tsz refSampleRate = Inr wm' \<longrightarrow>
            tableSize wm' = tsz \<and> wrap_padded wm')
     \<and> ((unat tsz + 2 * unat tableExtra) * numTables < 2 ^ 32
          \<and> kiss_fftr_alloc kiss (unat tsz) True \<and> kiss_fftr_alloc kiss (length audioData) False \<longrightarrow>
          (\<exists>w. createForHarmonicProfile kiss hp amplitude tsz refSampleRate = Inr w)
        \<and> (\<exists>w. createFromAudioData kiss audioData amplitude tsz refSampleRate = Inr w))"
proof -
  have a: "tableSize w = tsz \<and> wrap_padded w"
    if ret: "createForHarmonicProfile kiss hp' amplitude tsz refSampleRate = Inr w" for hp' w
  proof -
    note r = returned_result [OF ret assms]
    have "wrap_padded w" by (rule wrap_padded_rows [OF r(1) assms r(2,3,5)])
    then show ?thesis using r(2) by simp
  qed
  have b: "tableSize wm' = tsz \<and> wrap_padded wm'"
    if ret: "createFromAudioData kiss audioData amplitude tsz refSampleRate = Inr wm'"
  proof -
    from ret obtain hp' where "createForHarmonicProfile kiss hp' amplitude tsz refSampleRate = Inr wm'"
      by (auto simp: createFromAudioData_def Let_def split: if_splits)
    then show ?thesis by (rule a)
  qed
  have c: "(\<exists>w. createForHarmonicProfile kiss hp amplitude tsz refSampleRate = Inr w)
        \<and> (\<exists>w. createFromAudioData kiss audioData amplitude tsz refSampleRate = Inr w)"
    if h: "(unat tsz + 2 * unat tableExtra) * numTables < 2 ^ 32
          \<and> kiss_fftr_alloc kiss (unat tsz) True \<and> kiss_fftr_alloc kiss (length audioData) False"
  proof -
    from h have H: "(unat tsz + 8) * 24 < 2 ^ 32" by (simp only: no_wrap)
    have "\<exists>w. createForHarmonicProfile kiss hp' amplitude tsz refSampleRate = Inr w" for hp'
      using createForHarmonicProfile_result [OF H assms, of kiss hp' amplitude refSampleRate] h
      by blast
    then show ?thesis using h by (simp add: createFromAudioData_def Let_def)
  qed
  show ?thesis using a [of hp wm] b c by blast
qed

theorem wrap_padding_invariant_witness:
  "(\<exists>wm. createForHarmonicProfile sample_fft (\<lambda>i. 1 / of_nat i) 1 2 44100 = Inr wm
            \<and> tableSize wm = 2 \<and> wrap_padded wm
            \<and> row_cell wm 0 0 = Inr (1 / 2) \<and> row_cell wm 0 1 = Inr 1
            \<and> row_cell wm 0 2 = Inr (1 / 2) \<and> row_cell wm 0 3 = Inr 1
            \<and> row_cell wm 0 (- 1) = Inr 1 \<and> row_cell wm 0 (- 2) = Inr (1 / 2))
   \<and> (\<exists>wm. createFromAudioData sample_fft [0, 1, 0, - 1] 1 2 44100 = Inr wm
            \<and> tableSize wm = 2 \<and> wrap_padded wm
            \<and> row_cell wm 0 0 = Inr (1 / 4) \<and> row_cell wm 0 1 = Inr (1 / 2)
            \<and> row_cell wm 0 2 = Inr (1 / 4) \<and> row_cell wm 0 3 = Inr (1 / 2)
            \<and> row_cell wm 0 (- 1) = Inr (1 / 2) \<and> row_cell wm 0 (- 2) = Inr (1 / 4))"
proof -
  have p: "0 < unat (2 :: 32 word)" by simp
  have h: "(unat (2 :: 32 word) + 2 * unat tableExtra) * numTables < 2 ^ 32
      \<and> kiss_fftr_alloc sample_fft (unat (2 :: 32 word)) True
      \<and> kiss_fftr_alloc sample_fft (length [0, 1, 0, - 1 :: real]) False"
    by (simp add: tableExtra_def numTables_def N_def sample_fft_def)
  from wrap_padding_invariant [OF p, of sample_fft "\<lambda>i. 1 / of_nat i" 1 44100 _ "[0, 1, 0, - 1]"] h
  obtain w1 w2 where w: "createForHarmonicProfile sample_fft (\<lambda>i. 1 / of_nat i) 1 2 44100 = Inr w1"
    "createFromAudioData sample_fft [0, 1, 0, - 1] 1 2 44100 = Inr w2"
    by blast
  from wrap_padding_invariant [OF p, of sample_fft "\<lambda>i. 1 / of_nat i" 1 44100 w1 "[0, 1, 0, - 1]" w2] w
  have t: "tableSize w1 = 2" "wrap_padded w1" "tableSize w2 = 2" "wrap_padded w2" by blast+
  have c: "1 / 2 \<le> (0.5 * 44100 / 2) / (exp LogB / K)" by (rule band_0_cutoff) simp
  have i1: "IndexToStartFrequency ! Suc 0 = exp LogB / K"
    using IndexToStartFrequency_nth [of 1] by simp
  have cells: "row_cell wm 0 2 = Inr a \<and> row_cell wm 0 3 = Inr b
      \<and> row_cell wm 0 (- 1) = Inr b \<and> row_cell wm 0 (- 2) = Inr a"
    if ts: "tableSize wm = 2" and wp: "wrap_padded wm"
      and r: "row_cell wm 0 0 = Inr a" "row_cell wm 0 1 = Inr b" for wm a b
  proof -
    have k: "(0 :: nat) < numTables" "(0 :: nat) < unat tableExtra" "(1 :: nat) < unat tableExtra"
      by (simp_all add: numTables_def N_def tableExtra_def)
    from wp [unfolded wrap_padded_def, rule_format, OF k(1) k(2)] r
    have "row_cell wm 0 2 = Inr a" "row_cell wm 0 (- 1) = Inr b" by (auto simp: ts)
    moreover from wp [unfolded wrap_padded_def, rule_format, OF k(1) k(3)] r
    have "row_cell wm 0 3 = Inr b" "row_cell wm 0 (- 2) = Inr a" by (auto simp: ts)
    ultimately show ?thesis by simp
  qed
  have g1: "getTable w1 0 = Inr [1 / 2, 1]"
    using returned_rows [OF w(1) p, of 0] sample_table_2 [OF c]
    by (simp add: band_table_def i1)
  have r1: "row_cell w1 0 0 = Inr (1 / 2)" "row_cell w1 0 1 = Inr 1"
    using getTable_cell [of w1 0 "[1 / 2, 1]" 0] getTable_cell [of w1 0 "[1 / 2, 1]" 1] g1
    by simp_all
  have w2': "createForHarmonicProfile sample_fft
      (TabulatedHarmonicProfile [0, polar (1 / 2) (- pi / 2), 0]) 1 2 44100 = Inr w2"
    using w(2) by (simp only: sample_audio_profile)
  have g2: "getTable w2 0 = Inr [1 / 4, 1 / 2]"
    using returned_rows [OF w2' p, of 0] sample_audio_table_2 [OF c]
    by (simp add: band_table_def i1)
  have r2: "row_cell w2 0 0 = Inr (1 / 4)" "row_cell w2 0 1 = Inr (1 / 2)"
    using getTable_cell [of w2 0 "[1 / 4, 1 / 2]" 0] getTable_cell [of w2 0 "[1 / 4, 1 / 2]" 1] g2
    by simp_all
  have a: "createForHarmonicProfile sample_fft (\<lambda>i. 1 / of_nat i) 1 2 44100 = Inr w1
            \<and> tableSize w1 = 2 \<and> wrap_padded w1
            \<and> row_cell w1 0 0 = Inr (1 / 2) \<and> row_cell w1 0 1 = Inr 1
            \<and> row_cell w1 0 2 = Inr (1 / 2) \<and> row_cell w1 0 3 = Inr 1
            \<and> row_cell w1 0 (- 1) = Inr 1 \<and> row_cell w1 0 (- 2) = Inr (1 / 2)"
    using w(1) t(1,2) r1 cells [OF t(1,2) r1] by (simp only: simp_thms)
  have b: "createFromAudioData sample_fft [0, 1, 0, - 1] 1 2 44100 = Inr w2
            \<and> tableSize w2 = 2 \<and> wrap_padded w2
            \<and> row_cell w2 0 0 = Inr (1 / 4) \<and> row_cell w2 0 1 = Inr (1 / 2)
            \<and> row_cell w2 0 2 = Inr (1 / 4) \<and> row_cell w2 0 3 = Inr (1 / 2)
            \<and> row_cell w2 0 (- 1) = Inr (1 / 2) \<and> row_cell w2 0 (- 2) = Inr (1 / 4)"
    using w(2) t(3,4) r2 cells [OF t(3,4) r2] by (simp only: simp_thms)
  show ?thesis
    by (rule conjI) (rule exI [of _ w1], rule a, rule exI [of _ w2], rule b)
qed

text \<open>
  C8. For a tabulated profile over a spectrum of length \<open>L\<close>, \<^verbatim>\<open>getHarmonic(index)\<close> is zero
  for every \<open>index \<ge> L\<close>; below \<open>L\<close> it is the element of the spectrum at \<open>index\<close>.
\<close>

theorem getHarmonic_beyond_spectrum_zero:
  "(length harmonics \<le> index \<longrightarrow> TabulatedHarmonicProfile harmonics index = 0)
   \<and> (index < length harmonics \<longrightarrow> TabulatedHarmonicProfile harmonics index = harmonics ! index)"
  by (simp add: TabulatedHarmonicProfile_def)

theorem getHarmonic_beyond_spectrum_zero_witness:
  "TabulatedHarmonicProfile [1, 2, 3] 3 = 0 \<and> TabulatedHarmonicProfile [1, 2, 3] 2 = 3"
  using getHarmonic_beyond_spectrum_zero [of "[1, 2, 3]" 3] getHarmonic_beyond_spectrum_zero [of "[1, 2, 3]" 2] by simp

text \<open>
  C9. For every audio buffer of even length \<open>n \<ge> 4\<close>, \<^verbatim>\<open>createFromAudioData\<close> takes the
  \<open>n div 2 + 1\<close> bins of the forward transform of the buffer, multiplies each by
  \<open>polar (2 / n) (- pi / 2)\<close>, wraps the result in a tabulated profile and returns what
  \<^verbatim>\<open>createForHarmonicProfile\<close> returns for that profile and the same amplitude, table size
  and reference rate (when the allocation of the forward transform fails it throws).
\<close>

theorem createFromAudioData_delegates:
  assumes "even (length audioData)" "4 \<le> length audioData"
  shows "createFromAudioData kiss audioData amplitude tsz refSampleRate =
     (if kiss_fftr_alloc kiss (length audioData) False
      then createForHarmonicProfile kiss
             (TabulatedHarmonicProfile
                (map (\<lambda>i. kiss_fftr kiss audioData i * polar (2 / real (length audioData)) (- pi / 2))
                   [0 ..< length audioData div 2 + 1]))
             amplitude tsz refSampleRate
      else Inl BadAlloc)"
proof (cases "kiss_fftr_alloc kiss (length audioData) False")
  case False
  then show ?thesis by (simp add: createFromAudioData_def)
next
  case True
  define n where "n = length audioData div 2 + 1"
  define k where "k = polar (2 / real (length audioData)) (- pi / 2)"
  define spec where "spec = map (kiss_fftr kiss audioData) [0 ..< n]"
  have l: "length spec = n" by (simp add: spec_def)
  have "scale_loop k n 0 spec = map (\<lambda>z. z * k) spec"
    using scale_loop_map [of k spec] by (simp only: l)
  also have "\<dots> = map (\<lambda>i. kiss_fftr kiss audioData i * k) [0 ..< n]"
    by (simp add: spec_def)
  finally have s: "scale_loop k n 0 spec = map (\<lambda>i. kiss_fftr kiss audioData i * k) [0 ..< n]" .
  have k2: "polar (2.0 / real (length audioData)) (- pi / 2) = k" by (simp add: k_def)
  have "createFromAudioData kiss audioData amplitude tsz refSampleRate
      = createForHarmonicProfile kiss (TabulatedHarmonicProfile (scale_loop k n 0 spec))
          amplitude tsz refSampleRate"
    unfolding createFromAudioData_def Let_def k2 n_def [symmetric] spec_def [symmetric]
    using True by simp
  then have "createFromAudioData kiss audioData amplitude tsz refSampleRate
      = createForHarmonicProfile kiss
          (TabulatedHarmonicProfile (map (\<lambda>i. kiss_fftr kiss audioData i * k) [0 ..< n]))
          amplitude tsz refSampleRate"
    by (simp only: s)
  then show ?thesis using True unfolding k_def n_def by (simp only: if_True)
qed

theorem createFromAudioData_delegates_witness:
  "createFromAudioData sample_fft [0, 1, 0, - 1] 1 2048 44100 =
     createForHarmonicProfile sample_fft
        (TabulatedHarmonicProfile [0 * polar (2 / 4) (- pi / 2), 1 * polar (2 / 4) (- pi / 2), 0 * polar (2 / 4) (- pi / 2)])
        1 2048 44100"
proof -
  have "[0 ..< 3] = [0, 1, 2]" by (simp add: upt_rec)
  then show ?thesis
    using createFromAudioData_delegates [of "[0, 1, 0, - 1]" sample_fft 1 2048 44100]
    by (simp add: sample_fft_def)
qed

text \<open>
  C10. \<^verbatim>\<open>generate\<close> does not read the DC coefficient of the profile: bin 0 of its spectrum
  is zero, and two profiles that agree on every index from 1 on give the same spectrum
  and the same result of \<^verbatim>\<open>generate\<close>, for the same memory, span, amplitude and cutoff.
\<close>

theorem generate_ignores_dc:
  assumes "\<forall>i. 1 \<le> i \<longrightarrow> hp1 i = hp2 i"
  shows "generate_spec hp1 S a c ! 0 = 0
     \<and> generate_spec hp1 S a c = generate_spec hp2 S a c
     \<and> generate kiss hp1 mem ptr S a c = generate kiss hp2 mem ptr S a c"
  using generate_spec_cong [OF assms, of S a c] generate_spec_nth [of hp1 S a c]
  by (simp add: generate_def generate_table_def)

theorem generate_ignores_dc_witness:
  "generate_spec (\<lambda>i. if i = 0 then 5 else 1) 8 1 (Finite 0.3) ! 0 = 0
   \<and> generate_spec (\<lambda>i. if i = 0 then 5 else 1) 8 1 (Finite 0.3)
       = generate_spec (\<lambda>i. 1) 8 1 (Finite 0.3)
   \<and> generate sample_fft (\<lambda>i. if i = 0 then 5 else 1) (replicate 8 0) 0 8 1 (Finite 0.3)
       = generate sample_fft (\<lambda>i. 1) (replicate 8 0) 0 8 1 (Finite 0.3)"
proof -
  have "\<forall>i::nat. 1 \<le> i \<longrightarrow> (if i = 0 then 5 else 1) = (1 :: complex)" by simp
  then show ?thesis by (rule generate_ignores_dc)
qed

end
